theory Spec2Isabelle
  imports Main "HOL-Library.Multiset" "HOL-Library.AList"
begin

section \<open>Python values, exceptions and the configuration\<close>

text \<open>
  The exceptions that \<^verbatim>\<open>rubiks_cube.py\<close> can raise (through Python and numpy), and the
  two error kinds that the specification names. No statement of the source raises
  \<open>InvalidMoveError\<close> or \<open>InvalidStateShapeError\<close>: they are here so that the
  specification's error claims can be stated and compared with what the code returns.
\<close>

datatype error =
    KeyError | IndexError | TypeError | ValueError | AttributeError | AssertionError
  | InvalidMoveError | InvalidStateShapeError

definition and_then :: "error + 'a \<Rightarrow> ('a \<Rightarrow> error + 'b) \<Rightarrow> error + 'b" where
  "and_then m f = (case m of Inl e \<Rightarrow> Inl e | Inr x \<Rightarrow> f x)"

text \<open>
  The module \<^verbatim>\<open>random\<close>: the generator is an infinite sequence of draws, and each call of
  \<^verbatim>\<open>random.choice\<close> consumes one. \<^verbatim>\<open>random.choice\<close> raises IndexError on an empty
  sequence.
\<close>

type_synonym rand = "nat \<Rightarrow> nat"

definition random_choice :: "'a list \<Rightarrow> rand \<Rightarrow> error + ('a \<times> rand)" where
  "random_choice xs g =
     (if xs = [] then Inl IndexError
      else Inr (xs ! (g 0 mod length xs), \<lambda>n. g (Suc n)))"

text \<open>
  Modelled from the spec: the module \<^verbatim>\<open>rubiks_cube_config\<close> (the constants \<^verbatim>\<open>colors\<close>,
  \<^verbatim>\<open>sides\<close>, \<^verbatim>\<open>directions\<close> and \<^verbatim>\<open>connexions\<close>) is not among the sources. The
  configuration is a parameter of every function below. Following the specification, a
  face and a direction are one symbol each, and the adjacency table gives for every face
  the ordered list of neighbouring faces, the edge of each neighbour, and the pairs of
  edges between which a strip is reversed. An edge label is one of the four that
  \<^verbatim>\<open>_edge_to_slice\<close> knows; its last branch (any other label: a message is printed and
  \<^verbatim>\<open>None\<close> is returned) is excluded by the type \<open>edge\<close>.
\<close>

datatype edge = Edge_r | Edge_l | Edge_u | Edge_d

record connexion =
  c_sides :: "char list"
  c_edges :: "edge list"
  c_inversions :: "(edge \<times> edge) list"

record config =
  conf_colors :: "string list"
  conf_sides :: "char list"
  conf_directions :: "char list"
  conf_connexions :: "char \<rightharpoonup> connexion"

text \<open>
  A dictionary comprehension \<^verbatim>\<open>{x: index for index, x in enumerate(xs)}\<close>: a key keeps the
  position of its first insertion and the value of its last one, which is what
  \<open>AList.update\<close> does.
\<close>

definition enumerate_dict :: "'a list \<Rightarrow> ('a \<times> nat) list" where
  "enumerate_dict xs = fold (\<lambda>(i, x) d. AList.update x i d) (zip [0..<length xs] xs) []"

definition index_colors :: "config \<Rightarrow> (string \<times> nat) list" where
  "index_colors conf = enumerate_dict (conf_colors conf)"

definition index_sides :: "config \<Rightarrow> (char \<times> nat) list" where
  "index_sides conf = enumerate_dict (conf_sides conf)"

definition dict_get :: "('k \<times> 'v) list \<Rightarrow> 'k \<Rightarrow> error + 'v" where
  "dict_get d k = (case map_of d k of None \<Rightarrow> Inl KeyError | Some v \<Rightarrow> Inr v)"

definition actions :: "config \<Rightarrow> string list" where
  "actions conf = [[s, d]. s \<leftarrow> conf_sides conf, d \<leftarrow> conf_directions conf]"

section \<open>RubiksAction\<close>

record Action =
  side :: char
  direction :: char

record RubiksAction =
  action :: "Action option"

text \<open>
  \<^verbatim>\<open>_load_action\<close>: the code is a string here, so \<^verbatim>\<open>isinstance(action, str)\<close> holds;
  the other three tests are the source's. The else branch prints and returns \<^verbatim>\<open>None\<close>.
\<close>

definition load_action :: "config \<Rightarrow> string \<Rightarrow> Action option" where
  "load_action conf a =
     (if length a = 2 \<and> a ! 0 \<in> set (conf_sides conf) \<and> a ! 1 \<in> set (conf_directions conf)
      then Some \<lparr>side = a ! 0, direction = a ! 1\<rparr>
      else None)"

definition random_action :: "config \<Rightarrow> rand \<Rightarrow> error + (Action option \<times> rand)" where
  "random_action conf g =
     and_then (random_choice (conf_sides conf) g) (\<lambda>(s, g1).
     and_then (random_choice (conf_directions conf) g1) (\<lambda>(d, g2).
     Inr (Some \<lparr>side = s, direction = d\<rparr>, g2)))"

text \<open>\<^verbatim>\<open>RubiksAction.__init__\<close>: a code is loaded, no code draws a random action.\<close>

definition RubiksAction_init :: "config \<Rightarrow> string option \<Rightarrow> rand \<Rightarrow> error + (RubiksAction \<times> rand)" where
  "RubiksAction_init conf a g =
     (case a of
        Some code \<Rightarrow> Inr (\<lparr>action = load_action conf code\<rparr>, g)
      | None \<Rightarrow> and_then (random_action conf g) (\<lambda>(act, g'). Inr (\<lparr>action = act\<rparr>, g')))"

text \<open>
  \<^verbatim>\<open>get_inverse_action\<close> reads \<^verbatim>\<open>self.action.side\<close>, which raises AttributeError when
  the action is \<^verbatim>\<open>None\<close>.
\<close>

definition get_inverse_action :: "config \<Rightarrow> RubiksAction \<Rightarrow> error + RubiksAction" where
  "get_inverse_action conf ra =
     (case action ra of
        None \<Rightarrow> Inl AttributeError
      | Some a \<Rightarrow>
          (let inverse_side = side a;
               inverse_direction = (if direction a = CHR ''i'' then CHR ''d'' else CHR ''i'')
           in Inr \<lparr>action = load_action conf [inverse_side, inverse_direction]\<rparr>))"

section \<open>numpy arrays\<close>

text \<open>
  A face is a matrix of colour indices, the cube array is the list of its faces (axis 0).
  A numpy array is rectangular: \<open>has_shape k d a\<close> says that \<open>a\<close> has shape
  \<^verbatim>\<open>(k, d, d)\<close>, and \<open>has_shape4 k d c a\<close> that a one-hot array has shape
  \<^verbatim>\<open>(k, d, d, c)\<close>.
\<close>

type_synonym matrix = "int list list"
type_synonym ndarray = "int list list list"

definition has_shape :: "nat \<Rightarrow> nat \<Rightarrow> ndarray \<Rightarrow> bool" where
  "has_shape k d a \<longleftrightarrow>
     length a = k \<and> (\<forall>m \<in> set a. length m = d \<and> (\<forall>row \<in> set m. length row = d))"

definition has_shape4 :: "nat \<Rightarrow> nat \<Rightarrow> nat \<Rightarrow> int list list list list \<Rightarrow> bool" where
  "has_shape4 k d c a \<longleftrightarrow>
     length a = k \<and>
     (\<forall>m \<in> set a. length m = d \<and>
        (\<forall>row \<in> set m. length row = d \<and> (\<forall>cell \<in> set row. length cell = c)))"

text \<open>\<^verbatim>\<open>a.shape[-1]\<close> of an array of rank 3.\<close>

definition shape_last :: "ndarray \<Rightarrow> nat" where
  "shape_last a =
     (case a of [] \<Rightarrow> 0 | m # _ \<Rightarrow> (case m of [] \<Rightarrow> 0 | row # _ \<Rightarrow> length row))"

text \<open>
  \<^verbatim>\<open>np.rot90(m, k)\<close> on the first two axes, as numpy computes it: for \<open>k = 1\<close> the
  transpose of the matrix flipped along axis 1, for \<open>k = 3\<close> the flip along axis 1 of
  the transpose, for \<open>k = 2\<close> both flips.
\<close>

definition rot90 :: "matrix \<Rightarrow> nat \<Rightarrow> matrix" where
  "rot90 m k =
     (if k mod 4 = 0 then m
      else if k mod 4 = 2 then rev (map rev m)
      else if k mod 4 = 1 then transpose (map rev m)
      else map rev (transpose m))"

definition rotate_helper :: "matrix \<Rightarrow> char \<Rightarrow> matrix option" where
  "rotate_helper m direction0 =
     (if direction0 = CHR ''d'' then Some (rot90 m 1)
      else if direction0 = CHR ''i'' then Some (rot90 m 3)
      else None)"

text \<open>
  The index expressions \<^verbatim>\<open>np.s_[:, j]\<close> (a column) and \<^verbatim>\<open>np.s_[i, :]\<close> (a row), with
  Python's integer indices: a negative index counts from the end, an index outside the
  axis raises IndexError.
\<close>

datatype slice = Column int | Row int

fun edge_to_slice :: "edge \<Rightarrow> slice" where
  "edge_to_slice Edge_r = Column (- 1)"
| "edge_to_slice Edge_l = Column 0"
| "edge_to_slice Edge_u = Row 0"
| "edge_to_slice Edge_d = Row (- 1)"

definition py_index :: "int \<Rightarrow> nat \<Rightarrow> error + nat" where
  "py_index i n =
     (let j = (if i < 0 then int n + i else i)
      in if 0 \<le> j \<and> j < int n then Inr (nat j) else Inl IndexError)"

definition n_columns :: "matrix \<Rightarrow> nat" where
  "n_columns m = (case m of [] \<Rightarrow> 0 | row # _ \<Rightarrow> length row)"

fun get_slice :: "matrix \<Rightarrow> slice \<Rightarrow> error + int list" where
  "get_slice m (Column j) =
     and_then (py_index j (n_columns m)) (\<lambda>c. Inr (map (\<lambda>row. row ! c) m))"
| "get_slice m (Row i) =
     and_then (py_index i (length m)) (\<lambda>r. Inr (m ! r))"

text \<open>
  The assignment \<^verbatim>\<open>m[s] = v\<close>: the value has the length of the strip, or length 1 and is
  broadcast; any other length raises ValueError.
\<close>

definition broadcast_to :: "nat \<Rightarrow> int list \<Rightarrow> error + int list" where
  "broadcast_to n v =
     (if length v = n then Inr v
      else if length v = 1 then Inr (replicate n (v ! 0))
      else Inl ValueError)"

fun set_slice :: "matrix \<Rightarrow> slice \<Rightarrow> int list \<Rightarrow> error + matrix" where
  "set_slice m (Column j) v =
     and_then (py_index j (n_columns m)) (\<lambda>c.
     and_then (broadcast_to (length m) v) (\<lambda>w.
     Inr (map (\<lambda>(row, x). row[c := x]) (zip m w))))"
| "set_slice m (Row i) v =
     and_then (py_index i (length m)) (\<lambda>r.
     and_then (broadcast_to (n_columns m) v) (\<lambda>w.
     Inr (m[r := w])))"

text \<open>
  \<^verbatim>\<open>np.argmax\<close> of a non-empty vector: the first index that holds the maximum.
\<close>

definition argmax :: "int list \<Rightarrow> int" where
  "argmax v = int (length (takeWhile (\<lambda>x. x \<noteq> fold max v (hd v)) v))"

text \<open>
  \<^verbatim>\<open>from_one_hot_cube\<close>: \<^verbatim>\<open>np.argmax(cube, axis=-1)\<close>, which raises ValueError when
  the last axis is empty.
\<close>

definition from_one_hot_cube :: "int list list list list \<Rightarrow> error + ndarray" where
  "from_one_hot_cube a =
     (if \<exists>m \<in> set a. \<exists>row \<in> set m. \<exists>cell \<in> set row. cell = [] then Inl ValueError
      else Inr (map (map (map argmax)) a))"

text \<open>\<^verbatim>\<open>to_one_hot_cube\<close>: \<^verbatim>\<open>(np.arange(len(colors)) == cube[..., None]).astype(int)\<close>.\<close>

definition to_one_hot_cube :: "config \<Rightarrow> ndarray \<Rightarrow> int list list list list" where
  "to_one_hot_cube conf a =
     map (map (map (\<lambda>c. map (\<lambda>k. if int k = c then 1 else 0) [0..<length (conf_colors conf)]))) a"

text \<open>
  \<^verbatim>\<open>np.empty\<close> returns uninitialised memory: its content \<open>junk\<close> is a parameter.
\<close>

definition np_empty :: "(nat \<Rightarrow> nat \<Rightarrow> nat \<Rightarrow> int) \<Rightarrow> nat \<Rightarrow> nat \<Rightarrow> ndarray" where
  "np_empty junk k d = map (\<lambda>f. map (\<lambda>i. map (\<lambda>j. junk f i j) [0..<d]) [0..<d]) [0..<k]"

section \<open>RubiksCube\<close>

text \<open>
  Arrays are objects: the store is the list of the arrays allocated so far and an address
  is a position in it. An engine holds the address of its array, or none when
  \<^verbatim>\<open>__init__\<close> has not set the attribute \<^verbatim>\<open>cube\<close>. The attributes copied from the
  configuration (colours, connexions, sides, directions) and those computed from it
  (\<open>actions\<close>, \<open>index_colors\<close>, \<open>index_sides\<close>) are functions of the configuration.
\<close>

type_synonym addr = nat
type_synonym heap = "ndarray list"

definition alloc :: "ndarray \<Rightarrow> heap \<Rightarrow> addr \<times> heap" where
  "alloc a h = (length h, h @ [a])"

record RubiksCube =
  dim :: nat
  verbose :: bool
  counter :: nat
  cube :: "addr option"

text \<open>\<^verbatim>\<open>_construct_cube\<close>: face \<open>index\<close> is filled with \<open>index\<close>, for every value of \<open>index_colors\<close>.\<close>

definition construct_cube :: "config \<Rightarrow> (nat \<Rightarrow> nat \<Rightarrow> nat \<Rightarrow> int) \<Rightarrow> RubiksCube \<Rightarrow> ndarray" where
  "construct_cube conf junk self =
     fold (\<lambda>index a. a[index := replicate (dim self) (replicate (dim self) (int index))])
       (map snd (index_colors conf))
       (np_empty junk (length (conf_colors conf)) (dim self))"

text \<open>
  \<^verbatim>\<open>_edge_translation\<close>. \<^verbatim>\<open>side_matrix_a\<close> and \<^verbatim>\<open>side_matrix_b\<close> are views of two
  faces of the engine's array, given here by the array and the two face indices, so
  that the write to the strip of \<open>b\<close> is a write to the array. The strip of \<open>b\<close> is
  copied before it is overwritten, and the copy is returned (\<^verbatim>\<open>return_array\<close> is always
  true in the source).
\<close>

definition edge_translation ::
  "config \<Rightarrow> char \<Rightarrow> ndarray \<Rightarrow> nat \<Rightarrow> nat \<Rightarrow> edge \<Rightarrow> edge \<Rightarrow> int list option
     \<Rightarrow> error + (int list \<times> ndarray)" where
  "edge_translation conf side0 a ia ib edge_a edge_b input_array =
     and_then (case input_array of
                 None \<Rightarrow> get_slice (a ! ia) (edge_to_slice edge_a)
               | Some arr \<Rightarrow> Inr arr) (\<lambda>edge_array_a.
     and_then (case conf_connexions conf side0 of None \<Rightarrow> Inl KeyError | Some c \<Rightarrow> Inr c) (\<lambda>c.
     let edge_array_a =
           (if (edge_a, edge_b) \<in> set (c_inversions c) then rev edge_array_a else edge_array_a)
     in
     and_then (get_slice (a ! ib) (edge_to_slice edge_b)) (\<lambda>edge_array_b.
     and_then (set_slice (a ! ib) (edge_to_slice edge_b) edge_array_a) (\<lambda>mb.
     Inr (edge_array_b, a[ib := mb])))))"

text \<open>
  The loop of \<^verbatim>\<open>_rotate\<close> over \<^verbatim>\<open>range(len(connected_side_matrices)-1)\<close>:
  \<open>ms\<close> are the face indices of the connected side matrices, \<open>es\<close> the connected
  edges, \<open>prev\<close> is \<^verbatim>\<open>previous_array\<close>. Reading \<^verbatim>\<open>connected_edges[idx+1]\<close> raises
  IndexError when the list of edges is too short.
\<close>

fun rotate_loop ::
  "config \<Rightarrow> char \<Rightarrow> nat list \<Rightarrow> edge list \<Rightarrow> nat list \<Rightarrow> int list option \<Rightarrow> ndarray
     \<Rightarrow> error + ndarray" where
  "rotate_loop conf side0 ms es [] prev a = Inr a"
| "rotate_loop conf side0 ms es (idx # idxs) prev a =
     (if length es \<le> idx + 1 then Inl IndexError
      else and_then
             (edge_translation conf side0 a (ms ! idx) (ms ! (idx + 1)) (es ! idx) (es ! (idx + 1)) prev)
             (\<lambda>(previous_array, a'). rotate_loop conf side0 ms es idxs (Some previous_array) a'))"

text \<open>
  The list comprehension that builds \<^verbatim>\<open>connected_side_matrices\<close>: every connected side
  is looked up in \<open>index_sides\<close> (KeyError) and indexes the array (IndexError).
\<close>

fun side_matrices :: "config \<Rightarrow> ndarray \<Rightarrow> char list \<Rightarrow> error + nat list" where
  "side_matrices conf a [] = Inr []"
| "side_matrices conf a (s # ss) =
     and_then (dict_get (index_sides conf) s) (\<lambda>i.
     if length a \<le> i then Inl IndexError
     else and_then (side_matrices conf a ss) (\<lambda>is. Inr (i # is)))"

text \<open>
  The part of \<^verbatim>\<open>_rotate\<close> that works on the array: the face of the action is replaced
  by its rotation, then the strips of the connected sides are moved along the list
  (reversed for direction \<^verbatim>\<open>'i'\<close>). Assigning the \<^verbatim>\<open>None\<close> that \<^verbatim>\<open>_rotate_helper\<close>
  returns for any other direction to a face of an integer array raises TypeError.
\<close>

definition rotate_array :: "config \<Rightarrow> Action \<Rightarrow> ndarray \<Rightarrow> error + ndarray" where
  "rotate_array conf act a =
     and_then (dict_get (index_sides conf) (side act)) (\<lambda>i_side.
     if length a \<le> i_side then Inl IndexError
     else
     and_then (case conf_connexions conf (side act) of None \<Rightarrow> Inl KeyError | Some c \<Rightarrow> Inr c) (\<lambda>c.
     and_then (side_matrices conf a (c_sides c)) (\<lambda>connected_side_matrices.
     let connected_edges = c_edges c;
         (connected_side_matrices, connected_edges) =
           (if direction act = CHR ''i''
            then (rev connected_side_matrices, rev connected_edges)
            else (connected_side_matrices, connected_edges))
     in
     and_then (case rotate_helper (a ! i_side) (direction act) of
                 None \<Rightarrow> Inl TypeError
               | Some m \<Rightarrow> Inr (a[i_side := m])) (\<lambda>a1.
     rotate_loop conf (side act) connected_side_matrices connected_edges
       [0..<length connected_side_matrices - 1] None a1))))"

text \<open>
  \<^verbatim>\<open>_get_reward\<close>: \<open>1\<close> when every face \<open>i\<close> among the values of \<open>index_colors\<close>
  holds \<open>i\<close> in every cell, \<open>-1\<close> otherwise. The list comprehension reads every such
  face before \<^verbatim>\<open>np.all\<close> is applied.
\<close>

definition get_reward :: "config \<Rightarrow> RubiksCube \<Rightarrow> heap \<Rightarrow> error + int" where
  "get_reward conf self h =
     (case cube self of
        None \<Rightarrow> Inl AttributeError
      | Some p \<Rightarrow>
          (if \<exists>i \<in> set (map snd (index_colors conf)). length (h ! p) \<le> i then Inl IndexError
           else
             (let resolved =
                    (\<forall>i \<in> set (map snd (index_colors conf)).
                       \<forall>row \<in> set (h ! p ! i). \<forall>c \<in> set row. c = int i)
              in Inr (if resolved then 1 else - 1))))"

definition is_resolved :: "config \<Rightarrow> RubiksCube \<Rightarrow> heap \<Rightarrow> error + bool" where
  "is_resolved conf self h =
     and_then (get_reward conf self h) (\<lambda>r. Inr (if r = 1 then True else False))"

text \<open>
  \<^verbatim>\<open>_rotate\<close>: the engine's array is changed in place and the counter is incremented.
  With \<^verbatim>\<open>verbose\<close> the reward is computed for the message that is printed. When the
  array part raises, the strips already moved stay moved in the source; the model
  returns the exception alone.
\<close>

definition rotate :: "config \<Rightarrow> Action \<Rightarrow> bool \<Rightarrow> RubiksCube \<Rightarrow> heap \<Rightarrow> error + (RubiksCube \<times> heap)" where
  "rotate conf act verbose0 self h =
     (case cube self of
        None \<Rightarrow> Inl AttributeError
      | Some p \<Rightarrow>
          and_then (rotate_array conf act (h ! p)) (\<lambda>a.
          let self' = self\<lparr>counter := counter self + 1\<rparr>;
              h' = h[p := a]
          in
          if verbose0
          then and_then (get_reward conf self' h') (\<lambda>_. Inr (self', h'))
          else Inr (self', h')))"

text \<open>
  \<^verbatim>\<open>shuffle_cube\<close>: \<open>n\<close> random actions, the counter set to 0 after each of them.
  A random action is never \<^verbatim>\<open>None\<close>.
\<close>

fun shuffle_cube ::
  "config \<Rightarrow> nat \<Rightarrow> rand \<Rightarrow> RubiksCube \<Rightarrow> heap \<Rightarrow> error + (RubiksCube \<times> rand \<times> heap)" where
  "shuffle_cube conf 0 g self h = Inr (self, g, h)"
| "shuffle_cube conf (Suc n) g self h =
     and_then (RubiksAction_init conf None g) (\<lambda>(random_action0, g').
     case action random_action0 of
       None \<Rightarrow> Inl AttributeError
     | Some act \<Rightarrow>
         and_then (rotate conf act False self h) (\<lambda>(self', h').
         shuffle_cube conf n g' (self'\<lparr>counter := 0\<rparr>) h'))"

text \<open>
  \<^verbatim>\<open>RubiksCube.__init__\<close>. The argument \<^verbatim>\<open>cube\<close> is \<^verbatim>\<open>None\<close>, an array of rank 3 (an
  object of the store), an array of rank 4 (only read), or anything else. Only an array
  of rank 3 can have the raw shape and only one of rank 4 the one-hot shape; in every
  other case the message is printed and the attribute \<^verbatim>\<open>cube\<close> is not set.
\<close>

datatype cube_arg =
  NoCube | Array3 addr | Array4 "int list list list list" | OtherValue

definition RubiksCube_init ::
  "config \<Rightarrow> (nat \<Rightarrow> nat \<Rightarrow> nat \<Rightarrow> int) \<Rightarrow> nat \<Rightarrow> cube_arg \<Rightarrow> bool \<Rightarrow> bool \<Rightarrow> rand \<Rightarrow> heap
     \<Rightarrow> error + (RubiksCube \<times> rand \<times> heap)" where
  "RubiksCube_init conf junk dim0 cube0 verbose0 shuffle g h =
     (let self = \<lparr>dim = dim0, verbose = verbose0, counter = 0, cube = None\<rparr> in
      and_then
        (case cube0 of
           NoCube \<Rightarrow>
             (let (p, h') = alloc (construct_cube conf junk self) h
              in Inr (self\<lparr>cube := Some p\<rparr>, h'))
         | Array3 q \<Rightarrow>
             (if has_shape (length (conf_colors conf)) dim0 (h ! q)
              then (let (p, h') = alloc (h ! q) h in Inr (self\<lparr>cube := Some p\<rparr>, h'))
              else Inr (self, h))
         | Array4 one_hot \<Rightarrow>
             (if has_shape4 (length (conf_colors conf)) dim0 (length (conf_colors conf)) one_hot
              then and_then (from_one_hot_cube one_hot) (\<lambda>a.
                     let (p, h') = alloc a h in Inr (self\<lparr>cube := Some p\<rparr>, h'))
              else Inr (self, h))
         | OtherValue \<Rightarrow> Inr (self, h))
        (\<lambda>(self, h').
           if shuffle then shuffle_cube conf 100 g self h' else Inr (self, g, h')))"

text \<open>
  \<^verbatim>\<open>reset\<close>: a new solved array replaces the engine's array; the counter is touched only
  by the shuffle. The array returned is the engine's own.
\<close>

definition reset ::
  "config \<Rightarrow> (nat \<Rightarrow> nat \<Rightarrow> nat \<Rightarrow> int) \<Rightarrow> bool \<Rightarrow> rand \<Rightarrow> RubiksCube \<Rightarrow> heap
     \<Rightarrow> error + (addr \<times> RubiksCube \<times> rand \<times> heap)" where
  "reset conf junk shuffle g self h =
     (let (p, h1) = alloc (construct_cube conf junk self) h;
          self1 = self\<lparr>cube := Some p\<rparr>
      in
      and_then (if shuffle then shuffle_cube conf 100 g self1 h1 else Inr (self1, g, h1))
        (\<lambda>(self2, g', h2).
           case cube self2 of
             None \<Rightarrow> Inl AttributeError
           | Some q \<Rightarrow> Inr (q, self2, g', h2)))"

text \<open>
  \<^verbatim>\<open>step\<close>: the assertion fails on an action that is \<^verbatim>\<open>None\<close>. The state returned is
  the address of the engine's array, not a copy. The fourth component of the source's
  result is always \<^verbatim>\<open>None\<close> and is left out.
\<close>

definition step ::
  "config \<Rightarrow> RubiksAction \<Rightarrow> RubiksCube \<Rightarrow> heap
     \<Rightarrow> error + ((addr \<times> int \<times> bool) \<times> RubiksCube \<times> heap)" where
  "step conf ra self h =
     (case action ra of
        None \<Rightarrow> Inl AssertionError
      | Some act \<Rightarrow>
          and_then (rotate conf act (verbose self) self h) (\<lambda>(self', h').
          case cube self' of
            None \<Rightarrow> Inl AttributeError
          | Some state \<Rightarrow>
              and_then (get_reward conf self' h') (\<lambda>reward.
              and_then (is_resolved conf self' h') (\<lambda>done.
              Inr ((state, reward, done), self', h')))))"

text \<open>
  A random generator and an uninitialised memory for the calls that read neither.
\<close>

definition no_random :: rand where
  "no_random = (\<lambda>_. 0)"

definition zero_memory :: "nat \<Rightarrow> nat \<Rightarrow> nat \<Rightarrow> int" where
  "zero_memory = (\<lambda>_ _ _. 0)"

text \<open>
  \<^verbatim>\<open>get_action_from_two_states\<close>. Both states are arrays of rank 3 of the store (the
  two assertions of the source). The engine \<open>rubiks_1\<close> is built with the dimension of
  \<open>state_1\<close>; the copy probed for each action is built by \<^verbatim>\<open>RubiksCube(cube=rubiks_1.cube)\<close>,
  that is with the default dimension 3. Neither constructor call shuffles or constructs
  a solved cube, and the action is loaded from its code, so the uninitialised memory and
  the random generator they are given are never read.
\<close>

fun probe_actions ::
  "config \<Rightarrow> RubiksCube \<Rightarrow> addr \<Rightarrow> string list \<Rightarrow> heap \<Rightarrow> error + (RubiksAction option \<times> heap)" where
  "probe_actions conf rubiks_1 state_2 [] h = Inr (None, h)"
| "probe_actions conf rubiks_1 state_2 (a # as) h =
     (case cube rubiks_1 of
        None \<Rightarrow> Inl AttributeError
      | Some p \<Rightarrow>
          and_then (RubiksCube_init conf zero_memory 3 (Array3 p) False False no_random h)
            (\<lambda>(rubiks_1_copy, _, h1).
          and_then (RubiksAction_init conf (Some a) no_random) (\<lambda>(rubiks_action, _).
          and_then (step conf rubiks_action rubiks_1_copy h1) (\<lambda>((new_state, _, _), _, h2).
          if h2 ! new_state = h2 ! state_2 then Inr (Some rubiks_action, h2)
          else probe_actions conf rubiks_1 state_2 as h2))))"

definition get_action_from_two_states ::
  "config \<Rightarrow> addr \<Rightarrow> addr \<Rightarrow> heap \<Rightarrow> error + (RubiksAction option \<times> heap)" where
  "get_action_from_two_states conf state_1 state_2 h =
     and_then
       (RubiksCube_init conf zero_memory (shape_last (h ! state_1)) (Array3 state_1)
          False False no_random h)
       (\<lambda>(rubiks_1, _, h1). probe_actions conf rubiks_1 state_2 (actions conf) h1)"

text \<open>
  \<^verbatim>\<open>RubiksCube.__eq__\<close>: for another engine the result is \<^verbatim>\<open>self.cube == other.cube\<close>,
  numpy's comparison cell by cell, which is an array of booleans. For the arrays that
  engines hold (shape \<^verbatim>\<open>(k, d, d)\<close>) the comparison is defined when the shapes are equal
  or one of the two has \<open>d = 1\<close> and is broadcast; other shapes cannot be broadcast
  (ValueError in recent versions of numpy).
\<close>

datatype py_value = PyBool bool | PyBoolArray "bool list list list"

datatype py_object = CubeObject RubiksCube | OtherObject

definition np_equal :: "ndarray \<Rightarrow> ndarray \<Rightarrow> error + bool list list list" where
  "np_equal a b =
     (if map (map length) a = map (map length) b
      then Inr (map (\<lambda>(ma, mb). map (\<lambda>(ra, rb). map (\<lambda>(x, y). x = y) (zip ra rb)) (zip ma mb)) (zip a b))
      else if has_shape (length b) 1 a
      then Inr (map (\<lambda>(ma, mb). map (map (\<lambda>y. ma ! 0 ! 0 = y)) mb) (zip a b))
      else if has_shape (length a) 1 b
      then Inr (map (\<lambda>(ma, mb). map (map (\<lambda>x. x = mb ! 0 ! 0)) ma) (zip a b))
      else Inl ValueError)"

definition RubiksCube_eq :: "RubiksCube \<Rightarrow> py_object \<Rightarrow> heap \<Rightarrow> error + py_value" where
  "RubiksCube_eq self other h =
     (case other of
        CubeObject other_cube \<Rightarrow>
          (case cube self of
             None \<Rightarrow> Inl AttributeError
           | Some p \<Rightarrow>
               (case cube other_cube of
                  None \<Rightarrow> Inl AttributeError
                | Some q \<Rightarrow> and_then (np_equal (h ! p) (h ! q)) (\<lambda>r. Inr (PyBoolArray r))))
      | OtherObject \<Rightarrow> Inr (PyBool False))"

section \<open>Configurations\<close>

text \<open>
  What the functions above need from the configuration. Colours and sides are not
  repeated, every side has a face of the array, the directions are the two that
  \<^verbatim>\<open>_rotate_helper\<close> and \<^verbatim>\<open>get_inverse_action\<close> know, and the table gives every side four
  distinct neighbours, none of them the side itself. The loop of \<^verbatim>\<open>_rotate\<close> moves a
  strip between the entries \<open>idx\<close> and \<open>idx + 1\<close> of the list for every \<open>idx\<close> below
  the length minus one, so a cycle of four strips is a list of five entries whose last
  entry repeats the first.
\<close>

definition closed_cycle :: "config \<Rightarrow> char \<Rightarrow> connexion \<Rightarrow> bool" where
  "closed_cycle conf s c \<longleftrightarrow>
     length (c_sides c) = 5 \<and> length (c_edges c) = 5 \<and>
     c_sides c ! 4 = c_sides c ! 0 \<and> c_edges c ! 4 = c_edges c ! 0 \<and>
     distinct (take 4 (c_sides c)) \<and> s \<notin> set (c_sides c) \<and>
     set (c_sides c) \<subseteq> set (conf_sides conf)"

definition valid_config :: "config \<Rightarrow> bool" where
  "valid_config conf \<longleftrightarrow>
     distinct (conf_colors conf) \<and> distinct (conf_sides conf) \<and>
     length (conf_sides conf) \<le> length (conf_colors conf) \<and>
     set (conf_directions conf) = {CHR ''d'', CHR ''i''} \<and>
     (\<forall>s \<in> set (conf_sides conf).
        case conf_connexions conf s of None \<Rightarrow> False | Some c \<Rightarrow> closed_cycle conf s c)"

text \<open>
  A strip that goes from edge \<open>ea\<close> to edge \<open>eb\<close> is reversed when the pair
  \<open>(ea, eb)\<close> is listed. \<open>cycle_pairs\<close> are the pairs of consecutive edges of the
  list. Direction \<^verbatim>\<open>'i'\<close> walks the list backwards and so looks up the pairs
  \<open>(eb, ea)\<close>: the table is symmetric when both lookups agree on every step of the
  cycle, and even when a strip is reversed an even number of times on its way round, in
  either direction.
\<close>

definition cycle_pairs :: "connexion \<Rightarrow> (edge \<times> edge) list" where
  "cycle_pairs c = zip (c_edges c) (tl (c_edges c))"

definition symmetric_inversions :: "config \<Rightarrow> bool" where
  "symmetric_inversions conf \<longleftrightarrow>
     (\<forall>s \<in> set (conf_sides conf).
        case conf_connexions conf s of
          None \<Rightarrow> True
        | Some c \<Rightarrow>
            (\<forall>(ea, eb) \<in> set (cycle_pairs c).
               ((ea, eb) \<in> set (c_inversions c)) = ((eb, ea) \<in> set (c_inversions c))))"

definition even_inversions :: "config \<Rightarrow> bool" where
  "even_inversions conf \<longleftrightarrow>
     (\<forall>s \<in> set (conf_sides conf).
        case conf_connexions conf s of
          None \<Rightarrow> True
        | Some c \<Rightarrow>
            even (length (filter (\<lambda>(ea, eb). (ea, eb) \<in> set (c_inversions c)) (cycle_pairs c))) \<and>
            even (length (filter (\<lambda>(ea, eb). (eb, ea) \<in> set (c_inversions c)) (cycle_pairs c))))"

text \<open>
  Modelled from the spec: an instance of the missing configuration, for the example of
  the specification (six faces, colours 0 to 5, moves such as \<^verbatim>\<open>Ui\<close> and \<^verbatim>\<open>Ud\<close>). The
  faces are laid out as \<^verbatim>\<open>render\<close> draws them (faces 0 and 1 on the planes \<open>x = dim\<close>
  and \<open>x = 0\<close>, 2 and 3 on \<open>z = dim\<close> and \<open>z = 0\<close>, 4 and 5 on \<open>y = 0\<close> and
  \<open>y = dim\<close>), and the table is that of a quarter turn of the solid cube in this layout.
\<close>

definition example_config :: config where
  "example_config =
     \<lparr>conf_colors = [''red'', ''orange'', ''white'', ''yellow'', ''green'', ''blue''],
      conf_sides = ''FBUDLR'',
      conf_directions = ''di'',
      conf_connexions = map_of
        [(CHR ''F'', \<lparr>c_sides = ''ULDRU'',
                     c_edges = [Edge_r, Edge_r, Edge_r, Edge_l, Edge_r],
                     c_inversions = [(Edge_r, Edge_l), (Edge_l, Edge_r)]\<rparr>),
         (CHR ''B'', \<lparr>c_sides = ''URDLU'',
                     c_edges = [Edge_l, Edge_r, Edge_l, Edge_l, Edge_l],
                     c_inversions = [(Edge_l, Edge_r), (Edge_r, Edge_l)]\<rparr>),
         (CHR ''U'', \<lparr>c_sides = ''FRBLF'',
                     c_edges = [Edge_u, Edge_u, Edge_u, Edge_u, Edge_u],
                     c_inversions = []\<rparr>),
         (CHR ''D'', \<lparr>c_sides = ''FLBRF'',
                     c_edges = [Edge_d, Edge_d, Edge_d, Edge_d, Edge_d],
                     c_inversions = []\<rparr>),
         (CHR ''L'', \<lparr>c_sides = ''FUBDF'',
                     c_edges = [Edge_l, Edge_d, Edge_r, Edge_u, Edge_l],
                     c_inversions = [(Edge_d, Edge_r), (Edge_r, Edge_d),
                                     (Edge_u, Edge_l), (Edge_l, Edge_u)]\<rparr>),
         (CHR ''R'', \<lparr>c_sides = ''FDBUF'',
                     c_edges = [Edge_r, Edge_d, Edge_l, Edge_u, Edge_r],
                     c_inversions = [(Edge_r, Edge_d), (Edge_d, Edge_r),
                                     (Edge_l, Edge_u), (Edge_u, Edge_l)]\<rparr>)]\<rparr>"

section \<open>Notions used in the statements and proofs\<close>

text \<open>
  The definitions of this section are not part of the source. They describe a face as a
  square matrix, its four edge strips, and what one call of \<^verbatim>\<open>_rotate\<close> computes when
  nothing fails (\<open>turn\<close>), so that the properties of the source functions can be stated
  and proved against them.
\<close>

definition square :: "nat \<Rightarrow> matrix \<Rightarrow> bool" where
  "square d m \<longleftrightarrow> length m = d \<and> (\<forall>row \<in> set m. length row = d)"

definition column :: "nat \<Rightarrow> matrix \<Rightarrow> int list" where
  "column j m = map (\<lambda>row. row ! j) m"

definition put_column :: "nat \<Rightarrow> int list \<Rightarrow> matrix \<Rightarrow> matrix" where
  "put_column j v m = map (\<lambda>(row, x). row[j := x]) (zip m v)"

fun strip_of :: "edge \<Rightarrow> matrix \<Rightarrow> int list" where
  "strip_of Edge_r m = column (length m - 1) m"
| "strip_of Edge_l m = column 0 m"
| "strip_of Edge_u m = m ! 0"
| "strip_of Edge_d m = m ! (length m - 1)"

fun put_strip :: "edge \<Rightarrow> int list \<Rightarrow> matrix \<Rightarrow> matrix" where
  "put_strip Edge_r v m = put_column (length m - 1) v m"
| "put_strip Edge_l v m = put_column 0 v m"
| "put_strip Edge_u v m = m[0 := v]"
| "put_strip Edge_d v m = m[length m - 1 := v]"

definition flip_strip :: "connexion \<Rightarrow> edge \<Rightarrow> edge \<Rightarrow> int list \<Rightarrow> int list" where
  "flip_strip c ea eb v = (if (ea, eb) \<in> set (c_inversions c) then rev v else v)"

definition shift_strips ::
  "connexion \<Rightarrow> nat \<Rightarrow> edge \<Rightarrow> nat \<Rightarrow> edge \<Rightarrow> nat \<Rightarrow> edge \<Rightarrow> nat \<Rightarrow> edge \<Rightarrow> ndarray \<Rightarrow> ndarray" where
  "shift_strips c n0 e0 n1 e1 n2 e2 n3 e3 a =
     a[n1 := put_strip e1 (flip_strip c e0 e1 (strip_of e0 (a ! n0))) (a ! n1),
       n2 := put_strip e2 (flip_strip c e1 e2 (strip_of e1 (a ! n1))) (a ! n2),
       n3 := put_strip e3 (flip_strip c e2 e3 (strip_of e2 (a ! n2))) (a ! n3),
       n0 := put_strip e0 (flip_strip c e3 e0 (strip_of e3 (a ! n3))) (a ! n0)]"

definition side_index :: "config \<Rightarrow> char \<Rightarrow> nat" where
  "side_index conf s = the (map_of (index_sides conf) s)"

definition grid :: "nat \<Rightarrow> (nat \<Rightarrow> nat \<Rightarrow> int) \<Rightarrow> matrix" where
  "grid d f = map (\<lambda>i. map (\<lambda>j. f i j) [0..<d]) [0..<d]"

definition turn :: "config \<Rightarrow> Action \<Rightarrow> ndarray \<Rightarrow> ndarray" where
  "turn conf act a =
     (let c = the (conf_connexions conf (side act));
          f = side_index conf (side act);
          n = (\<lambda>k. side_index conf (c_sides c ! k));
          e = (\<lambda>k. c_edges c ! k)
      in if direction act = CHR ''i''
         then shift_strips c (n 0) (e 0) (n 3) (e 3) (n 2) (e 2) (n 1) (e 1) (a[f := rot90 (a ! f) 3])
         else shift_strips c (n 0) (e 0) (n 1) (e 1) (n 2) (e 2) (n 3) (e 3) (a[f := rot90 (a ! f) 1]))"

definition legal :: "config \<Rightarrow> Action \<Rightarrow> bool" where
  "legal conf act \<longleftrightarrow> side act \<in> set (conf_sides conf) \<and> direction act \<in> set (conf_directions conf)"

definition squares :: "nat \<Rightarrow> ndarray \<Rightarrow> bool" where
  "squares d a \<longleftrightarrow> (\<forall>j < length a. square d (a ! j))"

definition cycle_ok :: "ndarray \<Rightarrow> nat \<Rightarrow> nat \<Rightarrow> nat \<Rightarrow> nat \<Rightarrow> bool" where
  "cycle_ok a n0 n1 n2 n3 \<longleftrightarrow>
     distinct [n0, n1, n2, n3] \<and> n0 < length a \<and> n1 < length a \<and> n2 < length a \<and> n3 < length a"

definition flips_even :: "connexion \<Rightarrow> edge \<Rightarrow> edge \<Rightarrow> edge \<Rightarrow> edge \<Rightarrow> bool" where
  "flips_even c e0 e1 e2 e3 \<longleftrightarrow>
     even (length (filter (\<lambda>p. p \<in> set (c_inversions c)) [(e0, e1), (e1, e2), (e2, e3), (e3, e0)]))"

definition cells :: "ndarray \<Rightarrow> int multiset" where
  "cells a = mset (concat (concat a))"

definition inverse_of :: "Action \<Rightarrow> Action" where
  "inverse_of act = \<lparr>side = side act, direction = (if direction act = CHR ''i'' then CHR ''d'' else CHR ''i'')\<rparr>"

definition turns_as ::
  "config \<Rightarrow> char \<Rightarrow> nat \<Rightarrow> connexion \<Rightarrow> nat \<Rightarrow> nat \<Rightarrow> nat \<Rightarrow> nat \<Rightarrow> nat \<Rightarrow> bool" where
  "turns_as conf s k c f n0 n1 n2 n3 \<longleftrightarrow>
     conf_connexions conf s = Some c \<and>
     distinct [n0, n1, n2, n3] \<and> n0 < k \<and> n1 < k \<and> n2 < k \<and> n3 < k \<and>
     f < k \<and> f \<noteq> n0 \<and> f \<noteq> n1 \<and> f \<noteq> n2 \<and> f \<noteq> n3 \<and>
     (\<forall>b act. side act = s \<longrightarrow> direction act \<noteq> CHR ''i'' \<longrightarrow> turn conf act b =
        shift_strips c n0 (c_edges c ! 0) n1 (c_edges c ! 1) n2 (c_edges c ! 2) n3 (c_edges c ! 3)
          (b[f := rot90 (b ! f) (Suc 0)])) \<and>
     (\<forall>b act. side act = s \<longrightarrow> direction act = CHR ''i'' \<longrightarrow> turn conf act b =
        shift_strips c n0 (c_edges c ! 0) n3 (c_edges c ! 3) n2 (c_edges c ! 2) n1 (c_edges c ! 1)
          (b[f := rot90 (b ! f) 3]))"

definition solved_state :: "nat \<Rightarrow> nat \<Rightarrow> ndarray" where
  "solved_state k d = map (\<lambda>i. replicate d (replicate d (int i))) [0..<k]"

definition solved :: "ndarray \<Rightarrow> bool" where
  "solved a \<longleftrightarrow> (\<forall>i < length a. \<forall>row \<in> set (a ! i). \<forall>c \<in> set row. c = int i)"

section \<open>Lemmas about strips, rotations and the adjacency cycle\<close>

lemma has_shape_square: "has_shape k d a \<longleftrightarrow> length a = k \<and> (\<forall>m \<in> set a. square d m)"
  by (auto simp: has_shape_def square_def)

lemma n_columns_square: "square d m \<Longrightarrow> n_columns m = d"
  by (cases m) (auto simp: n_columns_def square_def)

lemma py_index_last: "0 < n \<Longrightarrow> py_index (- 1) n = Inr (n - 1)"
  by (auto simp: py_index_def Let_def)

lemma py_index_first: "0 < n \<Longrightarrow> py_index 0 n = Inr 0"
  by (auto simp: py_index_def Let_def)

lemma get_slice_square:
  assumes "square d m" "0 < d"
  shows "get_slice m (edge_to_slice e) = Inr (strip_of e m)"
proof -
  have "n_columns m = d" "length m = d"
    using assms by (simp_all add: n_columns_square) (simp add: square_def)
  then show ?thesis
    using assms(2) by (cases e) (simp_all add: py_index_last py_index_first and_then_def column_def)
qed

lemma set_slice_square:
  assumes "square d m" "0 < d" "length v = d"
  shows "set_slice m (edge_to_slice e) v = Inr (put_strip e v m)"
proof -
  have "n_columns m = d" "length m = d"
    using assms by (simp_all add: n_columns_square) (simp add: square_def)
  then show ?thesis
    using assms(2,3)
    by (cases e)
       (simp_all add: py_index_last py_index_first and_then_def put_column_def broadcast_to_def)
qed

lemma length_column [simp]: "length (column j m) = length m"
  by (simp add: column_def)

lemma length_strip_of: "square d m \<Longrightarrow> 0 < d \<Longrightarrow> length (strip_of e m) = d"
  by (cases e) (simp_all add: square_def)

lemma square_put_column: "square d m \<Longrightarrow> length v = d \<Longrightarrow> square d (put_column j v m)"
  by (auto simp: square_def put_column_def dest!: set_zip_leftD)

lemma square_update: "square d m \<Longrightarrow> length v = d \<Longrightarrow> square d (m[i := v])"
  by (auto simp: square_def dest!: set_update_subset_insert [THEN subsetD])

lemma square_put_strip: "square d m \<Longrightarrow> length v = d \<Longrightarrow> square d (put_strip e v m)"
  by (cases e) (simp_all add: square_put_column square_update)

lemma column_put_column:
  "square d m \<Longrightarrow> length v = d \<Longrightarrow> j < d \<Longrightarrow> column j (put_column j v m) = v"
  by (auto simp: column_def put_column_def square_def intro!: nth_equalityI)

lemma put_column_column: "put_column j (column j m) m = m"
  by (auto simp: column_def put_column_def intro!: nth_equalityI)

lemma put_column_twice:
  "length m = length v \<Longrightarrow> length w = length v \<Longrightarrow> put_column j v (put_column j w m) = put_column j v m"
  by (auto simp: put_column_def intro!: nth_equalityI)

lemma length_put_column: "length v = length m \<Longrightarrow> length (put_column j v m) = length m"
  by (simp add: put_column_def)

lemma strip_put_strip:
  assumes "square d m" "0 < d" "length v = d"
  shows "strip_of e (put_strip e v m) = v"
proof -
  have "length m = d" using assms by (simp add: square_def)
  then show ?thesis
    using assms by (cases e) (simp_all add: column_put_column length_put_column)
qed

lemma put_strip_strip: "put_strip e (strip_of e m) m = m"
  by (cases e) (simp_all add: put_column_column)

lemma put_strip_twice:
  assumes "square d m" "length v = d" "length w = d"
  shows "put_strip e v (put_strip e w m) = put_strip e v m"
proof -
  have "length m = d" using assms by (simp add: square_def)
  then show ?thesis
    using assms by (cases e) (simp_all add: put_column_twice length_put_column)
qed

lemma length_flip_strip [simp]: "length (flip_strip c ea eb v) = length v"
  by (simp add: flip_strip_def)

lemma edge_translation_first:
  assumes "conf_connexions conf s = Some c" "square d (a ! ia)" "square d (a ! ib)" "0 < d"
  shows "edge_translation conf s a ia ib ea eb None =
           Inr (strip_of eb (a ! ib),
                a[ib := put_strip eb (flip_strip c ea eb (strip_of ea (a ! ia))) (a ! ib)])"
proof -
  have "length (flip_strip c ea eb (strip_of ea (a ! ia))) = d"
    using assms by (simp add: length_strip_of)
  then show ?thesis
    using assms
    by (simp add: edge_translation_def and_then_def get_slice_square set_slice_square
          flip_strip_def)
qed

lemma edge_translation_next:
  assumes "conf_connexions conf s = Some c" "length v = d" "square d (a ! ib)" "0 < d"
  shows "edge_translation conf s a ia ib ea eb (Some v) =
           Inr (strip_of eb (a ! ib), a[ib := put_strip eb (flip_strip c ea eb v) (a ! ib)])"
proof -
  have "length (flip_strip c ea eb v) = d"
    using assms by simp
  then show ?thesis
    using assms
    by (simp add: edge_translation_def and_then_def get_slice_square set_slice_square
          flip_strip_def)
qed

lemma rotate_loop_cycle:
  assumes c: "conf_connexions conf s = Some c"
    and d: "0 < d"
    and sq: "square d (a ! n0)" "square d (a ! n1)" "square d (a ! n2)" "square d (a ! n3)"
    and len: "n0 < length a" "n1 < length a" "n2 < length a" "n3 < length a"
    and dist: "distinct [n0, n1, n2, n3]"
  shows "rotate_loop conf s [n0, n1, n2, n3, n0] [e0, e1, e2, e3, e0] [0..<4] None a =
           Inr (shift_strips c n0 e0 n1 e1 n2 e2 n3 e3 a)"
proof -
  let ?a1 = "a[n1 := put_strip e1 (flip_strip c e0 e1 (strip_of e0 (a ! n0))) (a ! n1)]"
  let ?a2 = "?a1[n2 := put_strip e2 (flip_strip c e1 e2 (strip_of e1 (a ! n1))) (a ! n2)]"
  let ?a3 = "?a2[n3 := put_strip e3 (flip_strip c e2 e3 (strip_of e2 (a ! n2))) (a ! n3)]"
  have idx: "[0..<4] = [0, 1, 2, 3]"
    by (simp add: upt_rec)
  have s1: "edge_translation conf s a n0 n1 e0 e1 None = Inr (strip_of e1 (a ! n1), ?a1)"
    using c sq d by (simp add: edge_translation_first)
  have s2: "edge_translation conf s ?a1 n1 n2 e1 e2 (Some (strip_of e1 (a ! n1))) =
              Inr (strip_of e2 (a ! n2), ?a2)"
    using c sq d dist len by (simp add: edge_translation_next [where d = d] length_strip_of)
  have s3: "edge_translation conf s ?a2 n2 n3 e2 e3 (Some (strip_of e2 (a ! n2))) =
              Inr (strip_of e3 (a ! n3), ?a3)"
    using c sq d dist len by (simp add: edge_translation_next [where d = d] length_strip_of)
  have s4: "edge_translation conf s ?a3 n3 n0 e3 e0 (Some (strip_of e3 (a ! n3))) =
              Inr (strip_of e0 (a ! n0),
                   ?a3[n0 := put_strip e0 (flip_strip c e3 e0 (strip_of e3 (a ! n3))) (a ! n0)])"
    using c sq d dist len by (simp add: edge_translation_next [where d = d] length_strip_of)
  show ?thesis
    unfolding idx
    by (simp add: s1 s2 s3 s4 and_then_def shift_strips_def)
qed

lemma update_fresh: "k \<notin> fst ` set d \<Longrightarrow> AList.update k v d = d @ [(k, v)]"
  by (induction d) auto

lemma fold_update_fresh:
  "distinct xs \<Longrightarrow> set xs \<inter> fst ` set acc = {} \<Longrightarrow>
   fold (\<lambda>(i, x) d. AList.update x i d) (zip [k..<k + length xs] xs) acc =
     acc @ zip xs [k..<k + length xs]"
proof (induction xs arbitrary: k acc)
  case Nil
  then show ?case by simp
next
  case (Cons x xs)
  have up: "[k..<k + length (x # xs)] = k # [Suc k..<Suc k + length xs]"
    by (simp add: upt_rec)
  have fresh: "x \<notin> fst ` set acc"
    using Cons.prems by auto
  have disj: "set xs \<inter> fst ` set (acc @ [(x, k)]) = {}"
    using Cons.prems by auto
  have "distinct xs"
    using Cons.prems by simp
  from Cons.IH [OF this disj, of "Suc k"]
  have "fold (\<lambda>(i, x) d. AList.update x i d) (zip [Suc k..<Suc k + length xs] xs) (acc @ [(x, k)]) =
          (acc @ [(x, k)]) @ zip xs [Suc k..<Suc k + length xs]" .
  then show ?case
    unfolding up by (simp add: update_fresh [OF fresh])
qed

lemma enumerate_dict_distinct:
  "distinct xs \<Longrightarrow> enumerate_dict xs = zip xs [0..<length xs]"
  using fold_update_fresh [of xs "[]" 0] by (simp add: enumerate_dict_def)

lemma enumerate_dict_values: "distinct xs \<Longrightarrow> map snd (enumerate_dict xs) = [0..<length xs]"
  by (simp add: enumerate_dict_distinct)

lemma enumerate_dict_nth:
  "distinct xs \<Longrightarrow> i < length xs \<Longrightarrow> map_of (enumerate_dict xs) (xs ! i) = Some i"
  using map_of_zip_nth [of xs "[0..<length xs]" i] by (simp add: enumerate_dict_distinct)

lemma side_index_nth:
  "distinct (conf_sides conf) \<Longrightarrow> i < length (conf_sides conf) \<Longrightarrow>
   side_index conf (conf_sides conf ! i) = i"
  by (simp add: side_index_def index_sides_def enumerate_dict_nth)

lemma side_index_props:
  assumes "distinct (conf_sides conf)" "s \<in> set (conf_sides conf)"
  shows "dict_get (index_sides conf) s = Inr (side_index conf s)"
    and "side_index conf s < length (conf_sides conf)"
    and "conf_sides conf ! side_index conf s = s"
proof -
  obtain i where i: "i < length (conf_sides conf)" "conf_sides conf ! i = s"
    using assms(2) by (auto simp: in_set_conv_nth)
  have "map_of (index_sides conf) s = Some i"
    using enumerate_dict_nth [OF assms(1) i(1)] i(2) by (simp add: index_sides_def)
  then show "dict_get (index_sides conf) s = Inr (side_index conf s)"
    and "side_index conf s < length (conf_sides conf)"
    and "conf_sides conf ! side_index conf s = s"
    using i by (simp_all add: dict_get_def side_index_def)
qed

lemma side_index_inj:
  assumes "distinct (conf_sides conf)" "s \<in> set (conf_sides conf)" "t \<in> set (conf_sides conf)"
  shows "side_index conf s = side_index conf t \<longleftrightarrow> s = t"
  using side_index_props(3) [OF assms(1,2)] side_index_props(3) [OF assms(1,3)] by metis

lemma side_matrices_indices:
  assumes "distinct (conf_sides conf)" "length (conf_sides conf) \<le> length a"
  shows "set ss \<subseteq> set (conf_sides conf) \<Longrightarrow>
         side_matrices conf a ss = Inr (map (side_index conf) ss)"
proof (induction ss)
  case Nil
  then show ?case by simp
next
  case (Cons s ss)
  then have s: "s \<in> set (conf_sides conf)" by simp
  show ?case
    using Cons side_index_props(1,2) [OF assms(1) s] assms(2)
    by (simp add: and_then_def)
qed

lemma square_grid [simp]: "square d (grid d f)"
  by (auto simp: square_def grid_def)

lemma grid_nth [simp]: "i < d \<Longrightarrow> j < d \<Longrightarrow> grid d f ! i ! j = f i j"
  by (simp add: grid_def)

lemma grid_cong: "(\<And>i j. i < d \<Longrightarrow> j < d \<Longrightarrow> f i j = g i j) \<Longrightarrow> grid d f = grid d g"
  by (simp add: grid_def)

lemma square_as_grid: "square d m \<Longrightarrow> m = grid d (\<lambda>i j. m ! i ! j)"
  by (auto simp: square_def grid_def intro!: nth_equalityI)

lemma transpose_square:
  assumes "square d m"
  shows "transpose m = grid d (\<lambda>i j. m ! j ! i)"
proof -
  have "transpose m = map (\<lambda>i. map (\<lambda>j. m ! j ! i) [0..<length m]) [0..<d]"
    using assms by (intro transpose_rectangle) (auto simp: square_def)
  then show ?thesis
    using assms by (simp add: grid_def square_def)
qed

lemma square_map_rev: "square d m \<Longrightarrow> square d (map rev m)"
  by (auto simp: square_def)

lemma rot90_1_grid:
  assumes "square d m"
  shows "rot90 m (Suc 0) = grid d (\<lambda>i j. m ! j ! (d - Suc i))"
proof -
  have "rot90 m (Suc 0) = grid d (\<lambda>i j. map rev m ! j ! i)"
    using transpose_square [OF square_map_rev [OF assms]] by (simp add: rot90_def)
  also have "\<dots> = grid d (\<lambda>i j. m ! j ! (d - Suc i))"
    using assms by (intro grid_cong) (simp add: square_def rev_nth)
  finally show ?thesis .
qed

lemma rot90_3_grid:
  assumes "square d m"
  shows "rot90 m 3 = grid d (\<lambda>i j. m ! (d - Suc j) ! i)"
proof -
  have "rot90 m 3 = map rev (grid d (\<lambda>i j. m ! j ! i))"
    using transpose_square [OF assms] by (simp add: rot90_def)
  also have "\<dots> = grid d (\<lambda>i j. m ! (d - Suc j) ! i)"
    by (auto simp: grid_def rev_nth intro!: nth_equalityI)
  finally show ?thesis .
qed

lemma square_rot90:
  "square d m \<Longrightarrow> square d (rot90 m (Suc 0))" "square d m \<Longrightarrow> square d (rot90 m 3)"
  by (simp_all add: rot90_1_grid rot90_3_grid)

lemma rot90_3_1:
  assumes "square d m"
  shows "rot90 (rot90 m (Suc 0)) 3 = m"
proof -
  have "rot90 (rot90 m (Suc 0)) 3 = grid d (\<lambda>i j. rot90 m (Suc 0) ! (d - Suc j) ! i)"
    using assms by (simp add: rot90_3_grid square_rot90)
  also have "\<dots> = grid d (\<lambda>i j. m ! i ! j)"
    by (intro grid_cong) (simp add: rot90_1_grid [OF assms])
  finally show ?thesis
    using square_as_grid [OF assms] by simp
qed

lemma rot90_1_3:
  assumes "square d m"
  shows "rot90 (rot90 m 3) (Suc 0) = m"
proof -
  have "rot90 (rot90 m 3) (Suc 0) = grid d (\<lambda>i j. rot90 m 3 ! j ! (d - Suc i))"
    using assms by (simp add: rot90_1_grid square_rot90)
  also have "\<dots> = grid d (\<lambda>i j. m ! i ! j)"
    by (intro grid_cong) (simp add: rot90_3_grid [OF assms])
  finally show ?thesis
    using square_as_grid [OF assms] by simp
qed

lemma rot90_1_twice:
  assumes "square d m"
  shows "rot90 (rot90 m (Suc 0)) (Suc 0) = grid d (\<lambda>i j. m ! (d - Suc i) ! (d - Suc j))"
proof -
  have "rot90 (rot90 m (Suc 0)) (Suc 0) = grid d (\<lambda>i j. rot90 m (Suc 0) ! j ! (d - Suc i))"
    using assms by (simp add: rot90_1_grid square_rot90)
  also have "\<dots> = grid d (\<lambda>i j. m ! (d - Suc i) ! (d - Suc j))"
    by (intro grid_cong) (simp add: rot90_1_grid [OF assms])
  finally show ?thesis .
qed

lemma rot90_3_twice:
  assumes "square d m"
  shows "rot90 (rot90 m 3) 3 = grid d (\<lambda>i j. m ! (d - Suc i) ! (d - Suc j))"
proof -
  have "rot90 (rot90 m 3) 3 = grid d (\<lambda>i j. rot90 m 3 ! (d - Suc j) ! i)"
    using assms by (simp add: rot90_3_grid square_rot90)
  also have "\<dots> = grid d (\<lambda>i j. m ! (d - Suc i) ! (d - Suc j))"
    by (intro grid_cong) (simp add: rot90_3_grid [OF assms])
  finally show ?thesis .
qed

lemma half_turn_twice:
  assumes "square d m"
  shows "grid d (\<lambda>i j. grid d (\<lambda>i j. m ! (d - Suc i) ! (d - Suc j)) ! (d - Suc i) ! (d - Suc j)) = m"
proof -
  have "grid d (\<lambda>i j. grid d (\<lambda>i j. m ! (d - Suc i) ! (d - Suc j)) ! (d - Suc i) ! (d - Suc j)) =
          grid d (\<lambda>i j. m ! i ! j)"
    by (intro grid_cong) simp
  then show ?thesis
    using square_as_grid [OF assms] by simp
qed

lemma rot90_1_four:
  assumes "square d m"
  shows "rot90 (rot90 (rot90 (rot90 m (Suc 0)) (Suc 0)) (Suc 0)) (Suc 0) = m"
  by (simp add: rot90_1_twice [OF assms] rot90_1_twice [OF square_grid] half_turn_twice [OF assms])

lemma rot90_3_four:
  assumes "square d m"
  shows "rot90 (rot90 (rot90 (rot90 m 3) 3) 3) 3 = m"
  by (simp add: rot90_3_twice [OF assms] rot90_3_twice [OF square_grid] half_turn_twice [OF assms])

lemma list5:
  assumes "length xs = 5"
  shows "xs = [xs ! 0, xs ! 1, xs ! 2, xs ! 3, xs ! 4]"
proof (rule nth_equalityI)
  show "length xs = length [xs ! 0, xs ! 1, xs ! 2, xs ! 3, xs ! 4]"
    using assms by simp
next
  fix i assume "i < length xs"
  then have "i = 0 \<or> i = 1 \<or> i = 2 \<or> i = 3 \<or> i = 4"
    using assms by arith
  then show "xs ! i = [xs ! 0, xs ! 1, xs ! 2, xs ! 3, xs ! 4] ! i"
    by (elim disjE) simp_all
qed

lemma has_shape_nth: "has_shape k d a \<Longrightarrow> i < k \<Longrightarrow> square d (a ! i)"
  by (simp add: has_shape_square)

text \<open>What a valid configuration gives for one side.\<close>

lemma valid_config_side:
  assumes "valid_config conf" "s \<in> set (conf_sides conf)"
  obtains c where "conf_connexions conf s = Some c"
    and "c_sides c = [c_sides c ! 0, c_sides c ! 1, c_sides c ! 2, c_sides c ! 3, c_sides c ! 0]"
    and "c_edges c = [c_edges c ! 0, c_edges c ! 1, c_edges c ! 2, c_edges c ! 3, c_edges c ! 0]"
    and "distinct [c_sides c ! 0, c_sides c ! 1, c_sides c ! 2, c_sides c ! 3]"
    and "\<forall>k < 4. c_sides c ! k \<in> set (conf_sides conf) \<and> c_sides c ! k \<noteq> s"
proof -
  have "case conf_connexions conf s of None \<Rightarrow> False | Some c \<Rightarrow> closed_cycle conf s c"
    using assms unfolding valid_config_def by blast
  then obtain c where c: "conf_connexions conf s = Some c" "closed_cycle conf s c"
    by (cases "conf_connexions conf s") simp_all
  have l: "length (c_sides c) = 5" "length (c_edges c) = 5"
    and last: "c_sides c ! 4 = c_sides c ! 0" "c_edges c ! 4 = c_edges c ! 0"
    and dist: "distinct (take 4 (c_sides c))"
    and notin: "s \<notin> set (c_sides c)"
    and sub: "set (c_sides c) \<subseteq> set (conf_sides conf)"
    using c(2) by (simp_all add: closed_cycle_def)
  have cs: "c_sides c = [c_sides c ! 0, c_sides c ! 1, c_sides c ! 2, c_sides c ! 3, c_sides c ! 0]"
    using list5 [OF l(1)] last(1) by simp
  have ce: "c_edges c = [c_edges c ! 0, c_edges c ! 1, c_edges c ! 2, c_edges c ! 3, c_edges c ! 0]"
    using list5 [OF l(2)] last(2) by simp
  have d4: "distinct [c_sides c ! 0, c_sides c ! 1, c_sides c ! 2, c_sides c ! 3]"
  proof -
    have "take 4 (c_sides c) = [c_sides c ! 0, c_sides c ! 1, c_sides c ! 2, c_sides c ! 3]"
      by (subst cs) simp
    with dist show ?thesis by simp
  qed
  have mem: "\<forall>k < 4. c_sides c ! k \<in> set (conf_sides conf) \<and> c_sides c ! k \<noteq> s"
  proof (intro allI impI)
    fix k :: nat assume "k < 4"
    then have "c_sides c ! k \<in> set (c_sides c)"
      using l(1) by simp
    then show "c_sides c ! k \<in> set (conf_sides conf) \<and> c_sides c ! k \<noteq> s"
      using sub notin by auto
  qed
  show thesis
    using that [OF c(1) cs ce d4 mem] .
qed

lemma legal_direction:
  "valid_config conf \<Longrightarrow> legal conf act \<Longrightarrow> direction act = CHR ''d'' \<or> direction act = CHR ''i''"
  by (auto simp: valid_config_def legal_def)

lemma rotate_array_turn:
  assumes v: "valid_config conf" and l: "legal conf act"
    and sh: "has_shape k d a" and k: "length (conf_sides conf) \<le> k" and d: "0 < d"
  shows "rotate_array conf act a = Inr (turn conf act a)"
proof -
  let ?s = "side act"
  have dist: "distinct (conf_sides conf)"
    using v by (simp add: valid_config_def)
  have s: "?s \<in> set (conf_sides conf)"
    using l by (simp add: legal_def)
  obtain c where c: "conf_connexions conf ?s = Some c"
    and cs: "c_sides c = [c_sides c ! 0, c_sides c ! 1, c_sides c ! 2, c_sides c ! 3, c_sides c ! 0]"
    and ce: "c_edges c = [c_edges c ! 0, c_edges c ! 1, c_edges c ! 2, c_edges c ! 3, c_edges c ! 0]"
    and d4: "distinct [c_sides c ! 0, c_sides c ! 1, c_sides c ! 2, c_sides c ! 3]"
    and mem: "\<forall>k < 4. c_sides c ! k \<in> set (conf_sides conf) \<and> c_sides c ! k \<noteq> ?s"
    using valid_config_side [OF v s] by metis
  define f where "f = side_index conf ?s"
  define n where "n = (\<lambda>k. side_index conf (c_sides c ! k))"
  define e where "e = (\<lambda>k. c_edges c ! k)"
  have la: "length a = k"
    using sh by (simp add: has_shape_def)
  have f: "dict_get (index_sides conf) ?s = Inr f" "f < length a"
    using side_index_props(1,2) [OF dist s] k la by (simp_all add: f_def)
  have memk: "c_sides c ! j \<in> set (conf_sides conf)" "c_sides c ! j \<noteq> ?s" if "j < 4" for j
    using mem that by simp_all
  have nk: "n j < length a" "n j \<noteq> f" if "j < 4" for j
    using side_index_props(2) [OF dist memk(1) [OF that]] k la
      side_index_inj [OF dist memk(1) [OF that] s] memk(2) [OF that]
    by (simp_all add: n_def f_def)
  have ndist: "distinct [n 0, n 1, n 2, n 3]"
    using d4 side_index_inj [OF dist memk(1) memk(1)] by (simp add: n_def)
  have sub: "set (c_sides c) \<subseteq> set (conf_sides conf)"
    by (subst cs) (simp add: memk(1))
  have "side_matrices conf a (c_sides c) = Inr (map (side_index conf) (c_sides c))"
    using side_matrices_indices [OF dist _ sub, of a] k la by simp
  also have "map (side_index conf) (c_sides c) = [n 0, n 1, n 2, n 3, n 0]"
    by (subst cs) (simp add: n_def)
  finally have sm: "side_matrices conf a (c_sides c) = Inr [n 0, n 1, n 2, n 3, n 0]" .
  have ces: "c_edges c = [e 0, e 1, e 2, e 3, e 0]"
    using ce by (simp add: e_def)
  have sq: "square d (a ! j)" if "j < length a" for j
    using has_shape_nth [OF sh] that la by simp
  have sq': "square d ((a[f := m]) ! n j)" if "j < 4" for j m
    using nk [OF that] sq by simp
  have len': "n j < length (a[f := m])" if "j < 4" for j m
    using nk [OF that] by simp
  have idx: "[0..<4] = [0, Suc 0, Suc (Suc 0), Suc (Suc (Suc 0))]"
    by (simp add: upt_rec)
  show ?thesis
  proof (cases "direction act = CHR ''i''")
    case True
    have "rotate_array conf act a =
            rotate_loop conf ?s [n 0, n 3, n 2, n 1, n 0] [e 0, e 3, e 2, e 1, e 0] [0..<4] None
              (a[f := rot90 (a ! f) 3])"
      using True f c sm
      by (simp add: rotate_array_def and_then_def rotate_helper_def ces idx del: rotate_loop.simps)
    also have "\<dots> =
        Inr (shift_strips c (n 0) (e 0) (n 3) (e 3) (n 2) (e 2) (n 1) (e 1) (a[f := rot90 (a ! f) 3]))"
      using ndist by (intro rotate_loop_cycle [OF c d]) (simp_all add: sq' nk)
    also have "shift_strips c (n 0) (e 0) (n 3) (e 3) (n 2) (e 2) (n 1) (e 1) (a[f := rot90 (a ! f) 3]) =
        turn conf act a"
      using True c by (simp add: turn_def Let_def n_def e_def f_def)
    finally show ?thesis .
  next
    case False
    then have dir: "direction act = CHR ''d''"
      using legal_direction [OF v l] by simp
    have "rotate_array conf act a =
            rotate_loop conf ?s [n 0, n 1, n 2, n 3, n 0] [e 0, e 1, e 2, e 3, e 0] [0..<4] None
              (a[f := rot90 (a ! f) 1])"
      using dir f c sm
      by (simp add: rotate_array_def and_then_def rotate_helper_def ces idx del: rotate_loop.simps)
    also have "\<dots> =
        Inr (shift_strips c (n 0) (e 0) (n 1) (e 1) (n 2) (e 2) (n 3) (e 3) (a[f := rot90 (a ! f) 1]))"
      using ndist by (intro rotate_loop_cycle [OF c d]) (simp_all add: sq' nk)
    also have "shift_strips c (n 0) (e 0) (n 1) (e 1) (n 2) (e 2) (n 3) (e 3) (a[f := rot90 (a ! f) 1]) =
        turn conf act a"
      using dir c by (simp add: turn_def Let_def n_def e_def f_def)
    finally show ?thesis .
  qed
qed

lemma has_shape_squares: "has_shape k d a \<longleftrightarrow> length a = k \<and> squares d a"
  by (simp add: has_shape_square squares_def all_set_conv_all_nth)

lemma length_shift_strips [simp]: "length (shift_strips c n0 e0 n1 e1 n2 e2 n3 e3 a) = length a"
  by (simp add: shift_strips_def)

lemma shift_strips_nth:
  assumes "cycle_ok a n0 n1 n2 n3"
  shows "shift_strips c n0 e0 n1 e1 n2 e2 n3 e3 a ! n0 =
           put_strip e0 (flip_strip c e3 e0 (strip_of e3 (a ! n3))) (a ! n0)"
    and "shift_strips c n0 e0 n1 e1 n2 e2 n3 e3 a ! n1 =
           put_strip e1 (flip_strip c e0 e1 (strip_of e0 (a ! n0))) (a ! n1)"
    and "shift_strips c n0 e0 n1 e1 n2 e2 n3 e3 a ! n2 =
           put_strip e2 (flip_strip c e1 e2 (strip_of e1 (a ! n1))) (a ! n2)"
    and "shift_strips c n0 e0 n1 e1 n2 e2 n3 e3 a ! n3 =
           put_strip e3 (flip_strip c e2 e3 (strip_of e2 (a ! n2))) (a ! n3)"
  using assms by (simp_all add: shift_strips_def cycle_ok_def)

lemma shift_strips_other:
  "j \<noteq> n0 \<Longrightarrow> j \<noteq> n1 \<Longrightarrow> j \<noteq> n2 \<Longrightarrow> j \<noteq> n3 \<Longrightarrow>
   shift_strips c n0 e0 n1 e1 n2 e2 n3 e3 a ! j = a ! j"
  by (simp add: shift_strips_def)

lemma shift_strips_update:
  "f \<noteq> n0 \<Longrightarrow> f \<noteq> n1 \<Longrightarrow> f \<noteq> n2 \<Longrightarrow> f \<noteq> n3 \<Longrightarrow>
   shift_strips c n0 e0 n1 e1 n2 e2 n3 e3 (a[f := m]) =
     (shift_strips c n0 e0 n1 e1 n2 e2 n3 e3 a)[f := m]"
  by (simp add: shift_strips_def list_update_swap)

lemma cycle_ok_shift [simp]:
  "cycle_ok (shift_strips c m0 e0 m1 e1 m2 e2 m3 e3 a) n0 n1 n2 n3 = cycle_ok a n0 n1 n2 n3"
  by (simp add: cycle_ok_def)

lemma cycle_ok_update [simp]: "cycle_ok (a[f := m]) n0 n1 n2 n3 = cycle_ok a n0 n1 n2 n3"
  by (simp add: cycle_ok_def)

lemma cycle_ok_rev: "cycle_ok a n0 n1 n2 n3 \<Longrightarrow> cycle_ok a n0 n3 n2 n1"
  by (auto simp: cycle_ok_def)

lemma squares_update: "squares d a \<Longrightarrow> square d m \<Longrightarrow> squares d (a[f := m])"
  by (cases "f < length a") (auto simp: squares_def nth_list_update)

lemma squares_nth: "squares d a \<Longrightarrow> j < length a \<Longrightarrow> square d (a ! j)"
  by (simp add: squares_def)

lemma squares_shift:
  assumes "squares d a" "0 < d" "cycle_ok a n0 n1 n2 n3"
  shows "squares d (shift_strips c n0 e0 n1 e1 n2 e2 n3 e3 a)"
  unfolding shift_strips_def
  using assms
  by (intro squares_update square_put_strip)
     (simp_all add: squares_def length_strip_of cycle_ok_def)

lemma flip_flip:
  "((ea, eb) \<in> set (c_inversions c)) = ((eb, ea) \<in> set (c_inversions c)) \<Longrightarrow>
   flip_strip c eb ea (flip_strip c ea eb v) = v"
  by (simp add: flip_strip_def)

lemma put_flip_back:
  assumes "square d m" "square d m'" "0 < d" "length w = d"
    and "((ea, eb) \<in> set (c_inversions c)) = ((eb, ea) \<in> set (c_inversions c))"
  shows "put_strip ea (flip_strip c eb ea (strip_of eb (put_strip eb (flip_strip c ea eb (strip_of ea m)) m')))
           (put_strip ea w m) = m"
proof -
  have "strip_of eb (put_strip eb (flip_strip c ea eb (strip_of ea m)) m') =
          flip_strip c ea eb (strip_of ea m)"
    using assms by (simp add: strip_put_strip [where d = d] length_strip_of)
  then show ?thesis
    using assms
    by (simp add: flip_flip put_strip_twice [where d = d] length_strip_of put_strip_strip)
qed

lemma shift_strips_inverse:
  assumes ok: "cycle_ok a n0 n1 n2 n3" and sq: "squares d a" and d: "0 < d"
    and sym: "((e0, e1) \<in> set (c_inversions c)) = ((e1, e0) \<in> set (c_inversions c))"
      "((e1, e2) \<in> set (c_inversions c)) = ((e2, e1) \<in> set (c_inversions c))"
      "((e2, e3) \<in> set (c_inversions c)) = ((e3, e2) \<in> set (c_inversions c))"
      "((e3, e0) \<in> set (c_inversions c)) = ((e0, e3) \<in> set (c_inversions c))"
  shows "shift_strips c n0 e0 n3 e3 n2 e2 n1 e1 (shift_strips c n0 e0 n1 e1 n2 e2 n3 e3 a) = a"
proof (rule nth_equalityI)
  show "length (shift_strips c n0 e0 n3 e3 n2 e2 n1 e1 (shift_strips c n0 e0 n1 e1 n2 e2 n3 e3 a)) =
          length a"
    by simp
next
  fix j
  let ?b = "shift_strips c n0 e0 n1 e1 n2 e2 n3 e3 a"
  have ok': "cycle_ok ?b n0 n3 n2 n1"
    using cycle_ok_rev [OF ok] by simp
  have q: "square d (a ! n0)" "square d (a ! n1)" "square d (a ! n2)" "square d (a ! n3)"
    using ok sq by (simp_all add: cycle_ok_def squares_def)
  have l: "\<And>e v. length (flip_strip c e e0 v) = length v" by simp
  consider "j = n0" | "j = n1" | "j = n2" | "j = n3"
    | "j \<noteq> n0" "j \<noteq> n1" "j \<noteq> n2" "j \<noteq> n3"
    by blast
  then show "shift_strips c n0 e0 n3 e3 n2 e2 n1 e1 ?b ! j = a ! j"
  proof cases
    case 1
    then show ?thesis
      using q d sym
      by (simp add: shift_strips_nth [OF ok'] shift_strips_nth [OF ok]
            put_flip_back [where d = d] length_strip_of)
  next
    case 2
    then show ?thesis
      using q d sym
      by (simp add: shift_strips_nth [OF ok'] shift_strips_nth [OF ok]
            put_flip_back [where d = d] length_strip_of)
  next
    case 3
    then show ?thesis
      using q d sym
      by (simp add: shift_strips_nth [OF ok'] shift_strips_nth [OF ok]
            put_flip_back [where d = d] length_strip_of)
  next
    case 4
    then show ?thesis
      using q d sym
      by (simp add: shift_strips_nth [OF ok'] shift_strips_nth [OF ok]
            put_flip_back [where d = d] length_strip_of)
  next
    case 5
    then show ?thesis
      by (simp add: shift_strips_other)
  qed
qed

lemma flips_even_round:
  assumes "flips_even c e0 e1 e2 e3"
  shows "flip_strip c e3 e0 (flip_strip c e2 e3 (flip_strip c e1 e2 (flip_strip c e0 e1 v))) = v"
    and "flip_strip c e0 e1 (flip_strip c e3 e0 (flip_strip c e2 e3 (flip_strip c e1 e2 v))) = v"
    and "flip_strip c e1 e2 (flip_strip c e0 e1 (flip_strip c e3 e0 (flip_strip c e2 e3 v))) = v"
    and "flip_strip c e2 e3 (flip_strip c e1 e2 (flip_strip c e0 e1 (flip_strip c e3 e0 v))) = v"
  using assms by (simp_all add: flips_even_def flip_strip_def split: if_splits)

lemma shift_strips_four:
  assumes ok: "cycle_ok a n0 n1 n2 n3" and sq: "squares d a" and d: "0 < d"
    and even: "flips_even c e0 e1 e2 e3"
  shows "shift_strips c n0 e0 n1 e1 n2 e2 n3 e3
           (shift_strips c n0 e0 n1 e1 n2 e2 n3 e3
             (shift_strips c n0 e0 n1 e1 n2 e2 n3 e3
               (shift_strips c n0 e0 n1 e1 n2 e2 n3 e3 a))) = a"
proof (rule nth_equalityI)
  show "length (shift_strips c n0 e0 n1 e1 n2 e2 n3 e3
           (shift_strips c n0 e0 n1 e1 n2 e2 n3 e3
             (shift_strips c n0 e0 n1 e1 n2 e2 n3 e3
               (shift_strips c n0 e0 n1 e1 n2 e2 n3 e3 a)))) = length a"
    by simp
next
  fix j
  let ?S = "shift_strips c n0 e0 n1 e1 n2 e2 n3 e3"
  have ok1: "cycle_ok (?S a) n0 n1 n2 n3" and ok2: "cycle_ok (?S (?S a)) n0 n1 n2 n3"
    and ok3: "cycle_ok (?S (?S (?S a))) n0 n1 n2 n3"
    using ok by simp_all
  have q: "square d (a ! n0)" "square d (a ! n1)" "square d (a ! n2)" "square d (a ! n3)"
    using ok sq by (simp_all add: cycle_ok_def squares_def)
  note nth = shift_strips_nth [OF ok] shift_strips_nth [OF ok1] shift_strips_nth [OF ok2]
    shift_strips_nth [OF ok3]
  note strip = strip_put_strip [where d = d] put_strip_twice [where d = d]
    square_put_strip [where d = d] length_strip_of [where d = d]
  consider "j = n0" | "j = n1" | "j = n2" | "j = n3"
    | "j \<noteq> n0" "j \<noteq> n1" "j \<noteq> n2" "j \<noteq> n3"
    by blast
  then show "?S (?S (?S (?S a))) ! j = a ! j"
  proof cases
    case 1
    then show ?thesis
      using q d by (simp add: nth strip flips_even_round [OF even] put_strip_strip)
  next
    case 2
    then show ?thesis
      using q d by (simp add: nth strip flips_even_round [OF even] put_strip_strip)
  next
    case 3
    then show ?thesis
      using q d by (simp add: nth strip flips_even_round [OF even] put_strip_strip)
  next
    case 4
    then show ?thesis
      using q d by (simp add: nth strip flips_even_round [OF even] put_strip_strip)
  next
    case 5
    then show ?thesis
      by (simp add: shift_strips_other)
  qed
qed

lemma mset_concat_update:
  "i < length m \<Longrightarrow> mset (concat (m[i := v])) + mset (m ! i) = mset (concat m) + mset v"
proof (induction m arbitrary: i)
  case Nil
  then show ?case by simp
next
  case (Cons row m)
  show ?case
  proof (cases i)
    case 0
    then show ?thesis by (simp add: ac_simps)
  next
    case (Suc k)
    then have "mset (concat (m[k := v])) + mset (m ! k) = mset (concat m) + mset v"
      using Cons by simp
    then show ?thesis
      using Suc by (simp add: ac_simps)
  qed
qed

lemma mset_put_column:
  "length m = length v \<Longrightarrow> \<forall>row \<in> set m. j < length row \<Longrightarrow>
   mset (concat (put_column j v m)) + mset (column j m) = mset (concat m) + mset v"
proof (induction m v rule: list_induct2)
  case Nil
  then show ?case by (simp add: put_column_def column_def)
next
  case (Cons row m x v)
  have row: "mset (row[j := x]) + {#row ! j#} = mset row + {#x#}"
    using Cons.prems by (simp add: mset_update)
  have rest: "mset (concat (put_column j v m)) + mset (column j m) = mset (concat m) + mset v"
    using Cons by simp
  have "mset (concat (put_column j (x # v) (row # m))) + mset (column j (row # m)) =
          (mset (row[j := x]) + {#row ! j#}) + (mset (concat (put_column j v m)) + mset (column j m))"
    by (simp add: put_column_def column_def ac_simps)
  also have "\<dots> = (mset row + {#x#}) + (mset (concat m) + mset v)"
    by (simp only: row rest)
  also have "\<dots> = mset (concat (row # m)) + mset (x # v)"
    by (simp add: ac_simps)
  finally show ?case .
qed

lemma mset_put_strip:
  assumes "square d m" "0 < d" "length v = d"
  shows "mset (concat (put_strip e v m)) + mset (strip_of e m) = mset (concat m) + mset v"
proof -
  have l: "length m = d" and rows: "\<forall>row \<in> set m. length row = d"
    using assms by (simp_all add: square_def)
  show ?thesis
  proof (cases e)
    case Edge_r
    then show ?thesis
      using l rows assms(2,3) by (simp add: mset_put_column)
  next
    case Edge_l
    then show ?thesis
      using l rows assms(2,3) by (simp add: mset_put_column)
  next
    case Edge_u
    then show ?thesis
      using l assms(2) by (simp add: mset_concat_update)
  next
    case Edge_d
    then show ?thesis
      using l assms(2) by (simp add: mset_concat_update)
  qed
qed

lemma mset_flip_strip [simp]: "mset (flip_strip c ea eb v) = mset v"
  by (simp add: flip_strip_def)

lemma concat_concat_map: "concat (concat xss) = concat (map concat xss)"
  by (induction xss) simp_all

lemma cells_update:
  assumes "i < length a"
  shows "cells (a[i := m]) + mset (concat (a ! i)) = cells a + mset (concat m)"
  using mset_concat_update [of i "map concat a" "concat m"] assms
  by (simp add: cells_def concat_concat_map map_update)

lemma mset_heads_tails:
  "mset (concat xss) = mset [h. (h # t) \<leftarrow> xss] + mset (concat [t. (h # t) \<leftarrow> xss])"
proof (induction xss)
  case Nil
  then show ?case by simp
next
  case (Cons xs xss)
  then show ?case by (cases xs) (simp_all add: ac_simps)
qed

lemma mset_concat_transpose: "mset (concat (transpose xss)) = mset (concat xss)"
proof (induction xss rule: transpose.induct)
  case 1
  then show ?case by simp
next
  case (2 xss)
  then show ?case by simp
next
  case (3 x xs xss)
  have "mset (concat (transpose ((x # xs) # xss))) =
          {#x#} + mset [h. (h # t) \<leftarrow> xss] + (mset xs + mset (concat [t. (h # t) \<leftarrow> xss]))"
    using 3 by (simp add: ac_simps)
  also have "\<dots> = {#x#} + mset xs + mset (concat xss)"
    by (simp add: mset_heads_tails [of xss] ac_simps)
  finally show ?case by (simp add: ac_simps)
qed

lemma mset_concat_map_rev: "mset (concat (map rev m)) = mset (concat m)"
  by (induction m) simp_all

lemma mset_rot90:
  "mset (concat (rot90 m (Suc 0))) = mset (concat m)" "mset (concat (rot90 m 3)) = mset (concat m)"
proof -
  show "mset (concat (rot90 m (Suc 0))) = mset (concat m)"
    by (simp add: rot90_def mset_concat_transpose mset_concat_map_rev)
  have "rot90 m 3 = map rev (transpose m)"
    by (simp add: rot90_def)
  then show "mset (concat (rot90 m 3)) = mset (concat m)"
    by (simp add: mset_concat_transpose mset_concat_map_rev)
qed

lemma count_sum_eq: "A + B = C + D \<Longrightarrow> count A x + count B x = count C x + count D x"
  by (metis count_union)

lemma cells_shift_strips:
  assumes ok: "cycle_ok a n0 n1 n2 n3" and sq: "squares d a" and d: "0 < d"
  shows "cells (shift_strips c n0 e0 n1 e1 n2 e2 n3 e3 a) = cells a"
proof (rule multiset_eqI)
  fix x
  define p0 where "p0 = put_strip e0 (flip_strip c e3 e0 (strip_of e3 (a ! n3))) (a ! n0)"
  define p1 where "p1 = put_strip e1 (flip_strip c e0 e1 (strip_of e0 (a ! n0))) (a ! n1)"
  define p2 where "p2 = put_strip e2 (flip_strip c e1 e2 (strip_of e1 (a ! n1))) (a ! n2)"
  define p3 where "p3 = put_strip e3 (flip_strip c e2 e3 (strip_of e2 (a ! n2))) (a ! n3)"
  have q: "square d (a ! n0)" "square d (a ! n1)" "square d (a ! n2)" "square d (a ! n3)"
    using ok sq by (simp_all add: cycle_ok_def squares_def)
  have n: "n0 < length a" "n1 < length a" "n2 < length a" "n3 < length a"
    and ne: "n0 \<noteq> n1" "n0 \<noteq> n2" "n0 \<noteq> n3" "n1 \<noteq> n2" "n1 \<noteq> n3" "n2 \<noteq> n3"
    using ok by (simp_all add: cycle_ok_def)
  have g0: "count (mset (concat p0)) x + count (mset (strip_of e0 (a ! n0))) x =
              count (mset (concat (a ! n0))) x + count (mset (strip_of e3 (a ! n3))) x"
    using count_sum_eq [OF mset_put_strip [OF q(1) d, of "flip_strip c e3 e0 (strip_of e3 (a ! n3))" e0]]
      q d by (simp add: p0_def length_strip_of)
  have g1: "count (mset (concat p1)) x + count (mset (strip_of e1 (a ! n1))) x =
              count (mset (concat (a ! n1))) x + count (mset (strip_of e0 (a ! n0))) x"
    using count_sum_eq [OF mset_put_strip [OF q(2) d, of "flip_strip c e0 e1 (strip_of e0 (a ! n0))" e1]]
      q d by (simp add: p1_def length_strip_of)
  have g2: "count (mset (concat p2)) x + count (mset (strip_of e2 (a ! n2))) x =
              count (mset (concat (a ! n2))) x + count (mset (strip_of e1 (a ! n1))) x"
    using count_sum_eq [OF mset_put_strip [OF q(3) d, of "flip_strip c e1 e2 (strip_of e1 (a ! n1))" e2]]
      q d by (simp add: p2_def length_strip_of)
  have g3: "count (mset (concat p3)) x + count (mset (strip_of e3 (a ! n3))) x =
              count (mset (concat (a ! n3))) x + count (mset (strip_of e2 (a ! n2))) x"
    using count_sum_eq [OF mset_put_strip [OF q(4) d, of "flip_strip c e2 e3 (strip_of e2 (a ! n2))" e3]]
      q d by (simp add: p3_def length_strip_of)
  have h1: "count (cells (a[n1 := p1])) x + count (mset (concat (a ! n1))) x =
              count (cells a) x + count (mset (concat p1)) x"
    using count_sum_eq [OF cells_update [OF n(2)]] .
  have h2: "count (cells (a[n1 := p1, n2 := p2])) x + count (mset (concat (a ! n2))) x =
              count (cells (a[n1 := p1])) x + count (mset (concat p2)) x"
    using count_sum_eq [OF cells_update [of n2 "a[n1 := p1]" p2]] n ne by simp
  have h3: "count (cells (a[n1 := p1, n2 := p2, n3 := p3])) x + count (mset (concat (a ! n3))) x =
              count (cells (a[n1 := p1, n2 := p2])) x + count (mset (concat p3)) x"
    using count_sum_eq [OF cells_update [of n3 "a[n1 := p1, n2 := p2]" p3]] n ne by simp
  have h0: "count (cells (a[n1 := p1, n2 := p2, n3 := p3, n0 := p0])) x + count (mset (concat (a ! n0))) x =
              count (cells (a[n1 := p1, n2 := p2, n3 := p3])) x + count (mset (concat p0)) x"
    using count_sum_eq [OF cells_update [of n0 "a[n1 := p1, n2 := p2, n3 := p3]" p0]] n ne by simp
  have eq: "shift_strips c n0 e0 n1 e1 n2 e2 n3 e3 a = a[n1 := p1, n2 := p2, n3 := p3, n0 := p0]"
    by (simp add: shift_strips_def p0_def p1_def p2_def p3_def)
  show "count (cells (shift_strips c n0 e0 n1 e1 n2 e2 n3 e3 a)) x = count (cells a) x"
    unfolding eq using g0 g1 g2 g3 h0 h1 h2 h3 by linarith
qed

lemma turn_structure:
  assumes v: "valid_config conf" and s: "s \<in> set (conf_sides conf)"
    and k: "length (conf_sides conf) \<le> k"
  shows "\<exists>c f n0 n1 n2 n3. turns_as conf s k c f n0 n1 n2 n3"
proof -
  have dist: "distinct (conf_sides conf)"
    using v by (simp add: valid_config_def)
  obtain c where c: "conf_connexions conf s = Some c"
    and d4: "distinct [c_sides c ! 0, c_sides c ! 1, c_sides c ! 2, c_sides c ! 3]"
    and mem: "\<forall>k < 4. c_sides c ! k \<in> set (conf_sides conf) \<and> c_sides c ! k \<noteq> s"
    using valid_config_side [OF v s] by metis
  define f where "f = side_index conf s"
  define n where "n = (\<lambda>k. side_index conf (c_sides c ! k))"
  have memk: "c_sides c ! j \<in> set (conf_sides conf)" "c_sides c ! j \<noteq> s" if "j < 4" for j
    using mem that by simp_all
  have nk: "n j < k" "f \<noteq> n j" if "j < 4" for j
    using side_index_props(2) [OF dist memk(1) [OF that]] k
      side_index_inj [OF dist memk(1) [OF that] s] memk(2) [OF that]
    by (simp_all add: n_def f_def)
  have ndist: "distinct [n 0, n 1, n 2, n 3]"
    using d4 side_index_inj [OF dist memk(1) memk(1)] by (simp add: n_def)
  have fk: "f < k"
    using side_index_props(2) [OF dist s] k by (simp add: f_def)
  have td: "turn conf act b =
       shift_strips c (n 0) (c_edges c ! 0) (n 1) (c_edges c ! 1) (n 2) (c_edges c ! 2) (n 3) (c_edges c ! 3)
         (b[f := rot90 (b ! f) (Suc 0)])" if "side act = s" "direction act \<noteq> CHR ''i''" for b act
    using that c by (simp add: turn_def Let_def n_def f_def)
  have ti: "turn conf act b =
       shift_strips c (n 0) (c_edges c ! 0) (n 3) (c_edges c ! 3) (n 2) (c_edges c ! 2) (n 1) (c_edges c ! 1)
         (b[f := rot90 (b ! f) 3])" if "side act = s" "direction act = CHR ''i''" for b act
    using that c by (simp add: turn_def Let_def n_def f_def)
  have "turns_as conf s k c f (n 0) (n 1) (n 2) (n 3)"
    unfolding turns_as_def
    using c ndist nk [of 0] nk [of 1] nk [of 2] nk [of 3] fk td ti
    by (intro conjI allI impI) simp_all
  then show ?thesis by blast
qed

lemma turns_as_cycle:
  assumes "turns_as conf s k c f n0 n1 n2 n3" "length b = k"
  shows "cycle_ok b n0 n1 n2 n3" "cycle_ok b n0 n3 n2 n1" "f < length b"
  using assms by (auto simp: turns_as_def cycle_ok_def)

lemma turns_as_turn:
  assumes "turns_as conf s k c f n0 n1 n2 n3" "side act = s"
  shows "direction act \<noteq> CHR ''i'' \<Longrightarrow> turn conf act b =
        shift_strips c n0 (c_edges c ! 0) n1 (c_edges c ! 1) n2 (c_edges c ! 2) n3 (c_edges c ! 3)
          (b[f := rot90 (b ! f) (Suc 0)])"
    and "direction act = CHR ''i'' \<Longrightarrow> turn conf act b =
        shift_strips c n0 (c_edges c ! 0) n3 (c_edges c ! 3) n2 (c_edges c ! 2) n1 (c_edges c ! 1)
          (b[f := rot90 (b ! f) 3])"
  using assms unfolding turns_as_def by blast+

lemma turns_as_other:
  assumes "turns_as conf s k c f n0 n1 n2 n3"
  shows "f \<noteq> n0" "f \<noteq> n1" "f \<noteq> n2" "f \<noteq> n3" "conf_connexions conf s = Some c"
  using assms by (simp_all add: turns_as_def)

lemma action_eq: "act = \<lparr>side = side act, direction = direction act\<rparr>"
  by simp

lemma cells_update_face:
  assumes "f < length a" "mset (concat m) = mset (concat (a ! f))"
  shows "cells (a[f := m]) = cells a"
  using cells_update [OF assms(1), of m] assms(2) by simp

lemma turn_shape:
  assumes v: "valid_config conf" and l: "legal conf act"
    and sh: "has_shape k d a" and k: "length (conf_sides conf) \<le> k" and d: "0 < d"
  shows "has_shape k d (turn conf act a)"
proof -
  have s: "side act \<in> set (conf_sides conf)"
    using l by (simp add: legal_def)
  have la: "length a = k" and sq: "squares d a"
    using sh by (simp_all add: has_shape_squares)
  obtain c f n0 n1 n2 n3 where t: "turns_as conf (side act) k c f n0 n1 n2 n3"
    using turn_structure [OF v s k] by blast
  note ok = turns_as_cycle [OF t] and tt = turns_as_turn [OF t refl]
  have f: "f < k"
    using t by (simp add: turns_as_def)
  have sqf: "square d (a ! f)"
    using sq f la by (simp add: squares_def)
  show ?thesis
  proof (cases "direction act = CHR ''i''")
    case True
    have "turn conf act a =
       shift_strips c n0 (c_edges c ! 0) n3 (c_edges c ! 3) n2 (c_edges c ! 2) n1 (c_edges c ! 1)
         (a[f := rot90 (a ! f) 3])"
      using tt(2) [OF True] .
    moreover have "squares d (a[f := rot90 (a ! f) 3])"
      using sq sqf by (simp add: squares_update square_rot90)
    ultimately show ?thesis
      using la d ok(2) [of a]
      by (simp add: has_shape_squares squares_shift)
  next
    case False
    have "turn conf act a =
       shift_strips c n0 (c_edges c ! 0) n1 (c_edges c ! 1) n2 (c_edges c ! 2) n3 (c_edges c ! 3)
         (a[f := rot90 (a ! f) (Suc 0)])"
      using tt(1) [OF False] .
    moreover have "squares d (a[f := rot90 (a ! f) (Suc 0)])"
      using sq sqf by (simp add: squares_update square_rot90)
    ultimately show ?thesis
      using la d ok(1) [of a]
      by (simp add: has_shape_squares squares_shift)
  qed
qed

lemma turn_cells:
  assumes v: "valid_config conf" and l: "legal conf act"
    and sh: "has_shape k d a" and k: "length (conf_sides conf) \<le> k" and d: "0 < d"
  shows "cells (turn conf act a) = cells a"
proof -
  have s: "side act \<in> set (conf_sides conf)"
    using l by (simp add: legal_def)
  have la: "length a = k" and sq: "squares d a"
    using sh by (simp_all add: has_shape_squares)
  obtain c f n0 n1 n2 n3 where t: "turns_as conf (side act) k c f n0 n1 n2 n3"
    using turn_structure [OF v s k] by blast
  note ok = turns_as_cycle [OF t] and tt = turns_as_turn [OF t refl]
  have f: "f < k"
    using t by (simp add: turns_as_def)
  have sqf: "square d (a ! f)"
    using sq f la by (simp add: squares_def)
  show ?thesis
  proof (cases "direction act = CHR ''i''")
    case True
    let ?b = "a[f := rot90 (a ! f) 3]"
    have "turn conf act a =
       shift_strips c n0 (c_edges c ! 0) n3 (c_edges c ! 3) n2 (c_edges c ! 2) n1 (c_edges c ! 1) ?b"
      using tt(2) [OF True] .
    moreover have "squares d ?b"
      using sq sqf by (simp add: squares_update square_rot90)
    moreover have "cells ?b = cells a"
      using f la by (simp add: cells_update_face mset_rot90)
    ultimately show ?thesis
      using d ok(2) [of ?b] la by (simp add: cells_shift_strips)
  next
    case False
    let ?b = "a[f := rot90 (a ! f) (Suc 0)]"
    have "turn conf act a =
       shift_strips c n0 (c_edges c ! 0) n1 (c_edges c ! 1) n2 (c_edges c ! 2) n3 (c_edges c ! 3) ?b"
      using tt(1) [OF False] .
    moreover have "squares d ?b"
      using sq sqf by (simp add: squares_update square_rot90)
    moreover have "cells ?b = cells a"
      using f la by (simp add: cells_update_face mset_rot90)
    ultimately show ?thesis
      using d ok(1) [of ?b] la by (simp add: cells_shift_strips)
  qed
qed

lemma closed_cycle_edges:
  assumes "valid_config conf" "s \<in> set (conf_sides conf)" "conf_connexions conf s = Some c"
  shows "c_edges c ! 4 = c_edges c ! 0"
proof -
  have "case conf_connexions conf s of None \<Rightarrow> False | Some c \<Rightarrow> closed_cycle conf s c"
    using assms(1,2) unfolding valid_config_def by blast
  then show ?thesis
    using assms(3) by (simp add: closed_cycle_def)
qed

lemma length_filter_4:
  "length (filter P [x0, x1, x2, x3]) =
     (of_bool (P x0) + of_bool (P x1) + of_bool (P x2) + of_bool (P x3) :: nat)"
  by simp

lemma cycle_pairs_valid:
  assumes "valid_config conf" "s \<in> set (conf_sides conf)" "conf_connexions conf s = Some c"
  shows "cycle_pairs c =
           [(c_edges c ! 0, c_edges c ! 1), (c_edges c ! 1, c_edges c ! 2),
            (c_edges c ! 2, c_edges c ! 3), (c_edges c ! 3, c_edges c ! 0)]"
proof -
  define e0 e1 e2 e3 where e: "e0 = c_edges c ! 0" "e1 = c_edges c ! 1" "e2 = c_edges c ! 2"
    "e3 = c_edges c ! 3"
  have "case conf_connexions conf s of None \<Rightarrow> False | Some c \<Rightarrow> closed_cycle conf s c"
    using assms(1,2) unfolding valid_config_def by blast
  then have "length (c_edges c) = 5" "c_edges c ! 4 = c_edges c ! 0"
    using assms(3) by (simp_all add: closed_cycle_def)
  then have "c_edges c = [e0, e1, e2, e3, e0]"
    using list5 [of "c_edges c"] by (simp add: e)
  then have "cycle_pairs c = [(e0, e1), (e1, e2), (e2, e3), (e3, e0)]"
    by (simp add: cycle_pairs_def)
  then show ?thesis
    by (simp only: e)
qed

lemma config_symmetric:
  assumes "valid_config conf" "symmetric_inversions conf" "s \<in> set (conf_sides conf)"
    "conf_connexions conf s = Some c"
  shows "((c_edges c ! 0, c_edges c ! 1) \<in> set (c_inversions c)) =
           ((c_edges c ! 1, c_edges c ! 0) \<in> set (c_inversions c))"
    and "((c_edges c ! 1, c_edges c ! 2) \<in> set (c_inversions c)) =
           ((c_edges c ! 2, c_edges c ! 1) \<in> set (c_inversions c))"
    and "((c_edges c ! 2, c_edges c ! 3) \<in> set (c_inversions c)) =
           ((c_edges c ! 3, c_edges c ! 2) \<in> set (c_inversions c))"
    and "((c_edges c ! 3, c_edges c ! 0) \<in> set (c_inversions c)) =
           ((c_edges c ! 0, c_edges c ! 3) \<in> set (c_inversions c))"
proof -
  have "case conf_connexions conf s of None \<Rightarrow> True
        | Some c \<Rightarrow> (\<forall>(ea, eb) \<in> set (cycle_pairs c).
               ((ea, eb) \<in> set (c_inversions c)) = ((eb, ea) \<in> set (c_inversions c)))"
    using assms(2,3) unfolding symmetric_inversions_def by blast
  then have "\<forall>(ea, eb) \<in> set (cycle_pairs c).
               ((ea, eb) \<in> set (c_inversions c)) = ((eb, ea) \<in> set (c_inversions c))"
    using assms(4) by simp
  then show "((c_edges c ! 0, c_edges c ! 1) \<in> set (c_inversions c)) =
           ((c_edges c ! 1, c_edges c ! 0) \<in> set (c_inversions c))"
    and "((c_edges c ! 1, c_edges c ! 2) \<in> set (c_inversions c)) =
           ((c_edges c ! 2, c_edges c ! 1) \<in> set (c_inversions c))"
    and "((c_edges c ! 2, c_edges c ! 3) \<in> set (c_inversions c)) =
           ((c_edges c ! 3, c_edges c ! 2) \<in> set (c_inversions c))"
    and "((c_edges c ! 3, c_edges c ! 0) \<in> set (c_inversions c)) =
           ((c_edges c ! 0, c_edges c ! 3) \<in> set (c_inversions c))"
    unfolding cycle_pairs_valid [OF assms(1,3,4)] by simp_all
qed

lemma config_even:
  assumes "valid_config conf" "even_inversions conf" "s \<in> set (conf_sides conf)"
    "conf_connexions conf s = Some c"
  shows "flips_even c (c_edges c ! 0) (c_edges c ! 1) (c_edges c ! 2) (c_edges c ! 3)"
    and "flips_even c (c_edges c ! 0) (c_edges c ! 3) (c_edges c ! 2) (c_edges c ! 1)"
proof -
  have "case conf_connexions conf s of None \<Rightarrow> True
        | Some c \<Rightarrow>
            even (length (filter (\<lambda>(ea, eb). (ea, eb) \<in> set (c_inversions c)) (cycle_pairs c))) \<and>
            even (length (filter (\<lambda>(ea, eb). (eb, ea) \<in> set (c_inversions c)) (cycle_pairs c)))"
    using assms(2,3) unfolding even_inversions_def by blast
  then have ev: "even (length (filter (\<lambda>(ea, eb). (ea, eb) \<in> set (c_inversions c)) (cycle_pairs c)))"
    "even (length (filter (\<lambda>(ea, eb). (eb, ea) \<in> set (c_inversions c)) (cycle_pairs c)))"
    using assms(4) by simp_all
  show "flips_even c (c_edges c ! 0) (c_edges c ! 1) (c_edges c ! 2) (c_edges c ! 3)"
    using ev(1) unfolding cycle_pairs_valid [OF assms(1,3,4)] flips_even_def length_filter_4
    by simp
  show "flips_even c (c_edges c ! 0) (c_edges c ! 3) (c_edges c ! 2) (c_edges c ! 1)"
    using ev(2) unfolding cycle_pairs_valid [OF assms(1,3,4)] flips_even_def length_filter_4
    by (simp add: ac_simps)
qed

lemma inverse_of_simps [simp]:
  "side (inverse_of act) = side act"
  "direction (inverse_of act) = (if direction act = CHR ''i'' then CHR ''d'' else CHR ''i'')"
  by (simp_all add: inverse_of_def)

lemma turn_inverse:
  assumes v: "valid_config conf" and sy: "symmetric_inversions conf" and l: "legal conf act"
    and sh: "has_shape k d a" and k: "length (conf_sides conf) \<le> k" and d: "0 < d"
  shows "turn conf (inverse_of act) (turn conf act a) = a"
proof -
  have s: "side act \<in> set (conf_sides conf)"
    using l by (simp add: legal_def)
  have la: "length a = k" and sq: "squares d a"
    using sh by (simp_all add: has_shape_squares)
  obtain c f n0 n1 n2 n3 where t: "turns_as conf (side act) k c f n0 n1 n2 n3"
    using turn_structure [OF v s k] by blast
  note ok = turns_as_cycle [OF t] and fn = turns_as_other [OF t]
  note sym = config_symmetric [OF v sy s fn(5)]
  let ?e0 = "c_edges c ! 0" and ?e1 = "c_edges c ! 1" and ?e2 = "c_edges c ! 2"
    and ?e3 = "c_edges c ! 3"
  let ?S = "shift_strips c n0 ?e0 n1 ?e1 n2 ?e2 n3 ?e3"
  let ?S' = "shift_strips c n0 ?e0 n3 ?e3 n2 ?e2 n1 ?e1"
  have f: "f < length a"
    using ok(3) [OF la] .
  have sqf: "square d (a ! f)"
    using sq f by (simp add: squares_def)
  show ?thesis
  proof (cases "direction act = CHR ''i''")
    case True
    let ?b = "a[f := rot90 (a ! f) 3]"
    have sqb: "squares d ?b"
      using sq sqf by (simp add: squares_update square_rot90)
    have t1: "turn conf act a = ?S' ?b"
      using turns_as_turn(2) [OF t refl True] .
    have "turn conf (inverse_of act) (?S' ?b) = ?S ((?S' ?b)[f := rot90 (?S' ?b ! f) (Suc 0)])"
      using turns_as_turn(1) [OF t, of "inverse_of act"] True by simp
    also have "?S' ?b ! f = rot90 (a ! f) 3"
      using fn f by (simp add: shift_strips_other)
    also have "?S ((?S' ?b)[f := rot90 (rot90 (a ! f) 3) (Suc 0)]) = (?S (?S' ?b))[f := a ! f]"
      using fn sqf by (simp add: shift_strips_update rot90_1_3)
    also have "?S (?S' ?b) = ?b"
      using shift_strips_inverse [where c = c and ?e0.0 = ?e0 and ?e1.0 = ?e3 and ?e2.0 = ?e2 and ?e3.0 = ?e1, OF ok(2) sqb d] sym la by simp
    finally show ?thesis
      by (simp add: t1)
  next
    case False
    let ?b = "a[f := rot90 (a ! f) (Suc 0)]"
    have sqb: "squares d ?b"
      using sq sqf by (simp add: squares_update square_rot90)
    have t1: "turn conf act a = ?S ?b"
      using turns_as_turn(1) [OF t refl False] .
    have "turn conf (inverse_of act) (?S ?b) = ?S' ((?S ?b)[f := rot90 (?S ?b ! f) 3])"
      using turns_as_turn(2) [OF t, of "inverse_of act"] False by simp
    also have "?S ?b ! f = rot90 (a ! f) (Suc 0)"
      using fn f by (simp add: shift_strips_other)
    also have "?S' ((?S ?b)[f := rot90 (rot90 (a ! f) (Suc 0)) 3]) = (?S' (?S ?b))[f := a ! f]"
      using fn sqf by (simp add: shift_strips_update rot90_3_1)
    also have "?S' (?S ?b) = ?b"
      using shift_strips_inverse [where c = c and ?e0.0 = ?e0 and ?e1.0 = ?e1 and ?e2.0 = ?e2 and ?e3.0 = ?e3, OF ok(1) sqb d] sym la by simp
    finally show ?thesis
      by (simp add: t1)
  qed
qed

lemma turn_four:
  assumes v: "valid_config conf" and ev: "even_inversions conf" and l: "legal conf act"
    and sh: "has_shape k d a" and k: "length (conf_sides conf) \<le> k" and d: "0 < d"
  shows "turn conf act (turn conf act (turn conf act (turn conf act a))) = a"
proof -
  have s: "side act \<in> set (conf_sides conf)"
    using l by (simp add: legal_def)
  have la: "length a = k" and sq: "squares d a"
    using sh by (simp_all add: has_shape_squares)
  obtain c f n0 n1 n2 n3 where t: "turns_as conf (side act) k c f n0 n1 n2 n3"
    using turn_structure [OF v s k] by blast
  define e0 e1 e2 e3 where e: "e0 = c_edges c ! 0" "e1 = c_edges c ! 1" "e2 = c_edges c ! 2"
    "e3 = c_edges c ! 3"
  note ok = turns_as_cycle [OF t] and fn = turns_as_other [OF t]
  note even = config_even [OF v ev s fn(5), folded e]
  have f: "f < length a"
    using ok(3) [OF la] .
  have sqf: "square d (a ! f)"
    using sq f by (simp add: squares_def)
  show ?thesis
  proof (cases "direction act = CHR ''i''")
    case True
    let ?S = "shift_strips c n0 e0 n3 e3 n2 e2 n1 e1"
    have T: "turn conf act b = (?S b)[f := rot90 (b ! f) 3]" for b
      using turns_as_turn(2) [OF t refl True, of b, folded e] fn by (simp add: shift_strips_update)
    have nthf: "?S b ! f = b ! f" for b
      using fn by (simp add: shift_strips_other)
    have upd: "?S (b[f := m]) = (?S b)[f := m]" for b m
      using fn by (simp add: shift_strips_update)
    have "turn conf act (turn conf act (turn conf act (turn conf act a))) =
            (?S (?S (?S (?S a))))[f := rot90 (rot90 (rot90 (rot90 (a ! f) 3) 3) 3) 3]"
      using f by (simp add: T nthf upd)
    also have "?S (?S (?S (?S a))) = a"
      using shift_strips_four [OF ok(2) sq d even(2)] la by simp
    finally show ?thesis
      by (simp add: rot90_3_four [OF sqf])
  next
    case False
    let ?S = "shift_strips c n0 e0 n1 e1 n2 e2 n3 e3"
    have T: "turn conf act b = (?S b)[f := rot90 (b ! f) (Suc 0)]" for b
      using turns_as_turn(1) [OF t refl False, of b, folded e] fn by (simp add: shift_strips_update)
    have nthf: "?S b ! f = b ! f" for b
      using fn by (simp add: shift_strips_other)
    have upd: "?S (b[f := m]) = (?S b)[f := m]" for b m
      using fn by (simp add: shift_strips_update)
    have "turn conf act (turn conf act (turn conf act (turn conf act a))) =
            (?S (?S (?S (?S a))))[f := rot90 (rot90 (rot90 (rot90 (a ! f) (Suc 0)) (Suc 0)) (Suc 0)) (Suc 0)]"
      using f by (simp add: T nthf upd)
    also have "?S (?S (?S (?S a))) = a"
      using shift_strips_four [OF ok(1) sq d even(1)] la by simp
    finally show ?thesis
      by (simp add: rot90_1_four [OF sqf])
  qed
qed

lemma valid_example: "valid_config example_config"
  by (simp add: valid_config_def example_config_def closed_cycle_def)

lemma symmetric_example: "symmetric_inversions example_config"
  by (simp add: symmetric_inversions_def example_config_def cycle_pairs_def)

lemma even_example: "even_inversions example_config"
  by (simp add: even_inversions_def example_config_def cycle_pairs_def)

lemma example_config_simps:
  "conf_colors example_config = [''red'', ''orange'', ''white'', ''yellow'', ''green'', ''blue'']"
  "conf_sides example_config = ''FBUDLR''"
  "conf_directions example_config = ''di''"
  by (simp_all add: example_config_def)

lemma has_shape_solved_state [simp]: "has_shape k d (solved_state k d)"
  by (auto simp: has_shape_def solved_state_def)

lemma solved_solved_state [simp]: "solved (solved_state k d)"
  by (simp add: solved_def solved_state_def)

lemma index_colors_values:
  "distinct (conf_colors conf) \<Longrightarrow> map snd (index_colors conf) = [0..<length (conf_colors conf)]"
  by (simp add: index_colors_def enumerate_dict_values)

lemma fold_update_all:
  "n \<le> length a \<Longrightarrow> fold (\<lambda>i a. a[i := F i]) [0..<n] a = map F [0..<n] @ drop n a"
proof (induction n)
  case 0
  then show ?case by simp
next
  case (Suc n)
  then have "fold (\<lambda>i a. a[i := F i]) [0..<Suc n] a = (map F [0..<n] @ drop n a)[n := F n]"
    by simp
  also have "\<dots> = map F [0..<n] @ (drop n a)[0 := F n]"
    by (simp add: list_update_append)
  also have "(drop n a)[0 := F n] = F n # drop (Suc n) a"
    using Suc.prems Cons_nth_drop_Suc [of n a, symmetric] by simp
  finally show ?case by simp
qed

lemma construct_cube_solved:
  assumes "distinct (conf_colors conf)"
  shows "construct_cube conf junk self = solved_state (length (conf_colors conf)) (dim self)"
  using fold_update_all [of "length (conf_colors conf)"
      "np_empty junk (length (conf_colors conf)) (dim self)"
      "\<lambda>index. replicate (dim self) (replicate (dim self) (int index))"]
  by (simp add: construct_cube_def index_colors_values [OF assms] solved_state_def np_empty_def)

lemma get_reward_solved:
  assumes "distinct (conf_colors conf)" "cube self = Some p"
    "length (h ! p) = length (conf_colors conf)"
  shows "get_reward conf self h = Inr (if solved (h ! p) then 1 else - 1)"
  using assms by (auto simp: get_reward_def index_colors_values solved_def)

lemma rotate_turn:
  assumes v: "valid_config conf" and l: "legal conf act"
    and p: "cube self = Some p" "p < length h"
    and sh: "has_shape (length (conf_colors conf)) d (h ! p)" and d: "0 < d"
  shows "rotate conf act vb self h =
           Inr (self\<lparr>counter := counter self + 1\<rparr>, h[p := turn conf act (h ! p)])"
proof -
  have k: "length (conf_sides conf) \<le> length (conf_colors conf)"
    and dc: "distinct (conf_colors conf)"
    using v by (simp_all add: valid_config_def)
  have ra: "rotate_array conf act (h ! p) = Inr (turn conf act (h ! p))"
    using rotate_array_turn [OF v l sh k d] .
  have "length (turn conf act (h ! p)) = length (conf_colors conf)"
    using turn_shape [OF v l sh k d] by (simp add: has_shape_def)
  then have "get_reward conf (self\<lparr>counter := counter self + 1\<rparr>) (h[p := turn conf act (h ! p)]) =
          Inr (if solved (turn conf act (h ! p)) then 1 else - 1)"
    using get_reward_solved [OF dc, of "self\<lparr>counter := counter self + 1\<rparr>" p
        "h[p := turn conf act (h ! p)]"] p by simp
  then show ?thesis
    using p ra by (simp add: rotate_def and_then_def Let_def)
qed

lemma step_turn:
  assumes v: "valid_config conf" and m: "action m = Some act" and l: "legal conf act"
    and p: "cube self = Some p" "p < length h"
    and sh: "has_shape (length (conf_colors conf)) d (h ! p)" and d: "0 < d"
  shows "step conf m self h =
           Inr ((p, (if solved (turn conf act (h ! p)) then 1 else - 1), solved (turn conf act (h ! p))),
                self\<lparr>counter := counter self + 1\<rparr>, h[p := turn conf act (h ! p)])"
proof -
  have k: "length (conf_sides conf) \<le> length (conf_colors conf)"
    and dc: "distinct (conf_colors conf)"
    using v by (simp_all add: valid_config_def)
  have "length (turn conf act (h ! p)) = length (conf_colors conf)"
    using turn_shape [OF v l sh k d] by (simp add: has_shape_def)
  then have "get_reward conf (self\<lparr>counter := counter self + 1\<rparr>) (h[p := turn conf act (h ! p)]) =
          Inr (if solved (turn conf act (h ! p)) then 1 else - 1)"
    using get_reward_solved [OF dc, of "self\<lparr>counter := counter self + 1\<rparr>" p
        "h[p := turn conf act (h ! p)]"] p by simp
  then show ?thesis
    using m p rotate_turn [OF v l p sh d, of "verbose self"]
    by (simp add: step_def and_then_def is_resolved_def)
qed

lemma legal_inverse: "valid_config conf \<Longrightarrow> legal conf act \<Longrightarrow> legal conf (inverse_of act)"
  by (auto simp: legal_def valid_config_def)

lemma get_inverse_action_legal:
  assumes "valid_config conf" "action m = Some act" "legal conf act"
  shows "get_inverse_action conf m = Inr \<lparr>action = Some (inverse_of act)\<rparr>"
proof -
  have "side act \<in> set (conf_sides conf)"
    "(if direction act = CHR ''i'' then CHR ''d'' else CHR ''i'') \<in> set (conf_directions conf)"
    using assms by (auto simp: legal_def valid_config_def)
  then show ?thesis
    using assms(2) by (simp add: get_inverse_action_def load_action_def inverse_of_def)
qed

lemma example_colors_length: "length (conf_colors example_config) = 6"
  by (simp add: example_config_simps)

lemma has_shape_example:
  "has_shape (length (conf_colors example_config)) 3 ([solved_state 6 3] ! 0)"
  using has_shape_solved_state [of 6 3] by (simp only: example_colors_length nth_Cons_0)

lemma legal_example_Ud: "legal example_config \<lparr>side = CHR ''U'', direction = CHR ''d''\<rparr>"
  by (simp add: legal_def example_config_simps)

lemma legal_example_Li: "legal example_config \<lparr>side = CHR ''L'', direction = CHR ''i''\<rparr>"
  by (simp add: legal_def example_config_simps)

lemma strip_of_uniform:
  "0 < d \<Longrightarrow> strip_of e (replicate d (replicate d c)) = replicate d c"
  by (cases e) (simp_all add: column_def map_replicate_const)

lemma strip_cells:
  assumes "square d m" "0 < d" "x \<in> set (strip_of e m)"
  shows "\<exists>row \<in> set m. x \<in> set row"
proof -
  have l: "length m = d" and rows: "\<forall>row \<in> set m. length row = d"
    using assms(1) by (simp_all add: square_def)
  show ?thesis
  proof (cases e)
    case Edge_r
    then obtain row where "row \<in> set m" "x = row ! (d - 1)"
      using assms(3) l by (auto simp: column_def)
    then show ?thesis
      using rows assms(2) by (intro bexI [of _ row]) simp_all
  next
    case Edge_l
    then obtain row where "row \<in> set m" "x = row ! 0"
      using assms(3) by (auto simp: column_def)
    then show ?thesis
      using rows assms(2) by (intro bexI [of _ row]) simp_all
  next
    case Edge_u
    then show ?thesis
      using assms(2,3) l by (intro bexI [of _ "m ! 0"]) simp_all
  next
    case Edge_d
    then show ?thesis
      using assms(2,3) l by (intro bexI [of _ "m ! (d - 1)"]) simp_all
  qed
qed

lemma solved_state_nth [simp]:
  "i < k \<Longrightarrow> solved_state k d ! i = replicate d (replicate d (int i))"
  by (simp add: solved_state_def)

lemma length_solved_state [simp]: "length (solved_state k d) = k"
  by (simp add: solved_state_def)

lemma flip_strip_replicate [simp]: "flip_strip c ea eb (replicate d x) = replicate d x"
  by (simp add: flip_strip_def)

lemma not_solved_witness:
  assumes "i < length a" "row \<in> set (a ! i)" "x \<in> set row" "x \<noteq> int i"
  shows "\<not> solved a"
  using assms unfolding solved_def by blast

lemma received_strip_unsolves:
  assumes nb: "nb < k" and na: "na < k" and ne: "na \<noteq> nb" and d: "0 < d"
    and len: "length b = k" and sq: "square d (b ! nb)"
    and face: "b ! nb = put_strip eb (replicate d (int na)) m" and m: "square d m"
  shows "\<not> solved b"
proof -
  have "strip_of eb (b ! nb) = replicate d (int na)"
    using strip_put_strip [OF m d, of "replicate d (int na)" eb] face by simp
  then have "int na \<in> set (strip_of eb (b ! nb))"
    using d by simp
  then obtain row where "row \<in> set (b ! nb)" "int na \<in> set row"
    using strip_cells [OF sq d] by blast
  then show ?thesis
    using not_solved_witness [of nb b row "int na"] nb len ne by simp
qed

lemma one_move_unsolves:
  assumes v: "valid_config conf" and l: "legal conf act" and d: "0 < d"
  shows "\<not> solved (turn conf act (solved_state (length (conf_colors conf)) d))"
proof -
  let ?k = "length (conf_colors conf)"
  let ?a = "solved_state ?k d"
  have k: "length (conf_sides conf) \<le> ?k"
    using v by (simp add: valid_config_def)
  have s: "side act \<in> set (conf_sides conf)"
    using l by (simp add: legal_def)
  obtain c f n0 n1 n2 n3 where t: "turns_as conf (side act) ?k c f n0 n1 n2 n3"
    using turn_structure [OF v s k] by blast
  define e0 e1 e2 e3 where e: "e0 = c_edges c ! 0" "e1 = c_edges c ! 1" "e2 = c_edges c ! 2"
    "e3 = c_edges c ! 3"
  note fn = turns_as_other [OF t]
  have n: "n0 < ?k" "n1 < ?k" "n2 < ?k" "n3 < ?k" "n0 \<noteq> n1" "n0 \<noteq> n3" "f < ?k"
    using t by (simp_all add: turns_as_def)
  have sh: "has_shape ?k d (turn conf act ?a)"
    using turn_shape [OF v l has_shape_solved_state k d] .
  then have len: "length (turn conf act ?a) = ?k" and sqs: "squares d (turn conf act ?a)"
    by (simp_all add: has_shape_squares)
  have sqm: "square d (replicate d (replicate d x))" for x :: int
    by (simp add: square_def)
  show ?thesis
  proof (cases "direction act = CHR ''i''")
    case True
    let ?b = "?a[f := rot90 (?a ! f) 3]"
    have ok: "cycle_ok ?b n0 n3 n2 n1"
      using turns_as_cycle(2) [OF t, of ?b] by simp
    have "turn conf act ?a = shift_strips c n0 e0 n3 e3 n2 e2 n1 e1 ?b"
      using turns_as_turn(2) [OF t refl True, of ?a, folded e] .
    then have "turn conf act ?a ! n3 = put_strip e3 (replicate d (int n0)) (replicate d (replicate d (int n3)))"
      using shift_strips_nth(2) [OF ok, of c e0 e3 e2 e1] fn n d
      by (simp add: strip_of_uniform)
    then show ?thesis
      using received_strip_unsolves [OF n(4) n(1) n(6) d len squares_nth [OF sqs] _ sqm, of e3 "int n3"]
        n len by simp
  next
    case False
    let ?b = "?a[f := rot90 (?a ! f) (Suc 0)]"
    have ok: "cycle_ok ?b n0 n1 n2 n3"
      using turns_as_cycle(1) [OF t, of ?b] by simp
    have "turn conf act ?a = shift_strips c n0 e0 n1 e1 n2 e2 n3 e3 ?b"
      using turns_as_turn(1) [OF t refl False, of ?a, folded e] .
    then have "turn conf act ?a ! n1 = put_strip e1 (replicate d (int n0)) (replicate d (replicate d (int n1)))"
      using shift_strips_nth(2) [OF ok, of c e0 e1 e2 e3] fn n d
      by (simp add: strip_of_uniform)
    then show ?thesis
      using received_strip_unsolves [OF n(2) n(1) n(5) d len squares_nth [OF sqs] _ sqm, of e1 "int n1"]
        n len by simp
  qed
qed

lemma init_no_cube:
  assumes "distinct (conf_colors conf)"
  shows "RubiksCube_init conf junk d NoCube vb False g h =
           Inr (\<lparr>dim = d, verbose = vb, counter = 0, cube = Some (length h)\<rparr>, g,
                h @ [solved_state (length (conf_colors conf)) d])"
  using construct_cube_solved [OF assms, of junk "\<lparr>dim = d, verbose = vb, counter = 0, cube = None\<rparr>"]
  by (simp add: RubiksCube_init_def alloc_def and_then_def Let_def)

lemma get_reward_values: "get_reward conf e h = Inr r \<Longrightarrow> r = 1 \<or> r = - 1"
  by (auto simp: get_reward_def Let_def split: option.splits if_splits)

section \<open>Move codes\<close>

text \<open>
  C7, as stated: a code that is not a configured face symbol followed by a configured
  direction symbol fails with InvalidMoveError. The source has no such failure: for
  the code \<^verbatim>\<open>Ux\<close> the constructor returns an object whose action is \<^verbatim>\<open>None\<close>.
\<close>

theorem invalid_code_counterexample:
  "RubiksAction_init example_config (Some ''Ux'') no_random = Inr (\<lparr>action = None\<rparr>, no_random)"
  by (simp add: RubiksAction_init_def load_action_def example_config_def)

text \<open>
  C7, amended: constructing a move from a code never fails. For a code of exactly two
  characters, a configured face symbol and a configured direction symbol, the move
  holds that (face, direction) pair. For every other code the move holds no action
  (the source prints a message), and \<^verbatim>\<open>step\<close> rejects such a move by its assertion.
\<close>

theorem load_action_never_raises:
  "\<exists>ra. RubiksAction_init conf (Some code) g = Inr (ra, g) \<and>
     (length code = 2 \<and> code ! 0 \<in> set (conf_sides conf) \<and> code ! 1 \<in> set (conf_directions conf)
        \<longrightarrow> action ra = Some \<lparr>side = code ! 0, direction = code ! 1\<rparr>) \<and>
     (\<not> (length code = 2 \<and> code ! 0 \<in> set (conf_sides conf) \<and> code ! 1 \<in> set (conf_directions conf))
        \<longrightarrow> action ra = None \<and> step conf ra self h = Inl AssertionError)"
  by (simp add: RubiksAction_init_def load_action_def step_def)

theorem load_action_never_raises_witness:
  "RubiksAction_init example_config (Some ''Ud'') no_random =
     Inr (\<lparr>action = Some \<lparr>side = CHR ''U'', direction = CHR ''d''\<rparr>\<rparr>, no_random) \<and>
   RubiksAction_init example_config (Some ''Udd'') no_random = Inr (\<lparr>action = None\<rparr>, no_random)"
proof -
  have conf: "conf_sides example_config = ''FBUDLR''" "conf_directions example_config = ''di''"
    by (simp_all add: example_config_def)
  obtain ra where ra: "RubiksAction_init example_config (Some ''Ud'') no_random = Inr (ra, no_random)"
      "action ra = Some \<lparr>side = CHR ''U'', direction = CHR ''d''\<rparr>"
    using load_action_never_raises [of example_config "''Ud''" no_random] by (auto simp: conf)
  obtain rb where rb: "RubiksAction_init example_config (Some ''Udd'') no_random = Inr (rb, no_random)"
      "action rb = None"
    using load_action_never_raises [of example_config "''Udd''" no_random] by (auto simp: conf)
  have "ra = \<lparr>action = Some \<lparr>side = CHR ''U'', direction = CHR ''d''\<rparr>\<rparr>"
    using ra(2) by (cases ra) simp
  moreover have "rb = \<lparr>action = None\<rparr>"
    using rb(2) by (cases rb) simp
  ultimately show ?thesis
    using ra(1) rb(1) by simp
qed

text \<open>
  C1: for every legal move and every cube array of shape \<open>(colours, d, d)\<close> with
  \<open>0 < d\<close>, the move followed by its inverse (the move \<^verbatim>\<open>get_inverse_action\<close> returns:
  same face, direction flipped) leaves the store, and so the state of the engine, exactly
  as it was. The configuration is valid and its table of inversions symmetric.
\<close>

theorem apply_then_inverse_restores_state:
  assumes "valid_config conf" and "symmetric_inversions conf"
    and "action m = Some act" and "legal conf act"
    and "cube self = Some p" and "p < length h"
    and "has_shape (length (conf_colors conf)) d (h ! p)" and "0 < d"
  shows "\<exists>m' r1 self1 h1 r2 self2.
           get_inverse_action conf m = Inr m' \<and>
           action m' = Some \<lparr>side = side act,
                             direction = (if direction act = CHR ''i'' then CHR ''d'' else CHR ''i'')\<rparr> \<and>
           step conf m self h = Inr (r1, self1, h1) \<and>
           step conf m' self1 h1 = Inr (r2, self2, h)"
proof -
  have k: "length (conf_sides conf) \<le> length (conf_colors conf)"
    using assms(1) by (simp add: valid_config_def)
  let ?m' = "\<lparr>action = Some (inverse_of act)\<rparr>"
  let ?self1 = "self\<lparr>counter := counter self + 1\<rparr>"
  let ?h1 = "h[p := turn conf act (h ! p)]"
  have inv: "get_inverse_action conf m = Inr ?m'"
    using get_inverse_action_legal [OF assms(1,3,4)] .
  have s1: "step conf m self h =
      Inr ((p, (if solved (turn conf act (h ! p)) then 1 else - 1), solved (turn conf act (h ! p))),
           ?self1, ?h1)"
    using step_turn [OF assms(1,3,4,5,6,7,8)] .
  have sh1: "has_shape (length (conf_colors conf)) d (?h1 ! p)"
    using turn_shape [OF assms(1,4,7) k assms(8)] assms(6) by simp
  have undo: "turn conf (inverse_of act) (?h1 ! p) = h ! p"
    using turn_inverse [OF assms(1,2,4,7) k assms(8)] assms(6) by simp
  have s2: "step conf ?m' ?self1 ?h1 =
      Inr ((p, (if solved (h ! p) then 1 else - 1), solved (h ! p)),
           ?self1\<lparr>counter := counter ?self1 + 1\<rparr>, h)"
    using step_turn [OF assms(1) _ legal_inverse [OF assms(1,4)] _ _ sh1 assms(8),
        of ?m' ?self1] assms(5,6) undo by simp
  show ?thesis
    using inv s1 s2 by (simp add: inverse_of_def)
qed

theorem apply_then_inverse_restores_state_witness:
  "valid_config example_config \<and> symmetric_inversions example_config \<and>
   legal example_config \<lparr>side = CHR ''L'', direction = CHR ''i''\<rparr> \<and>
   has_shape (length (conf_colors example_config)) 3 ([solved_state 6 3] ! 0) \<and>
   (\<exists>m' r1 self1 h1 r2 self2.
      get_inverse_action example_config \<lparr>action = Some \<lparr>side = CHR ''L'', direction = CHR ''i''\<rparr>\<rparr> = Inr m' \<and>
      action m' = Some \<lparr>side = CHR ''L'', direction = CHR ''d''\<rparr> \<and>
      step example_config \<lparr>action = Some \<lparr>side = CHR ''L'', direction = CHR ''i''\<rparr>\<rparr>
        \<lparr>dim = 3, verbose = False, counter = 0, cube = Some 0\<rparr> [solved_state 6 3] = Inr (r1, self1, h1) \<and>
      step example_config m' self1 h1 = Inr (r2, self2, [solved_state 6 3]))"
proof -
  note sh = has_shape_example
  show ?thesis
    using apply_then_inverse_restores_state [OF valid_example symmetric_example _ legal_example_Li _ _ sh,
        of "\<lparr>action = Some \<lparr>side = CHR ''L'', direction = CHR ''i''\<rparr>\<rparr>"
           "\<lparr>dim = 3, verbose = False, counter = 0, cube = Some 0\<rparr>"]
      valid_example symmetric_example legal_example_Li sh
    by simp
qed

text \<open>
  C3: a legal move on a cube array of shape \<open>(colours, d, d)\<close>, \<open>0 < d\<close>, succeeds and
  leaves the multiset of the colours of all cells of all faces unchanged.
\<close>

theorem move_preserves_colours:
  assumes "valid_config conf"
    and "action m = Some act" and "legal conf act"
    and "cube self = Some p" and "p < length h"
    and "has_shape (length (conf_colors conf)) d (h ! p)" and "0 < d"
  shows "\<exists>r self' h'.
           step conf m self h = Inr (r, self', h') \<and>
           mset (concat (concat (h' ! p))) = mset (concat (concat (h ! p)))"
proof -
  have k: "length (conf_sides conf) \<le> length (conf_colors conf)"
    using assms(1) by (simp add: valid_config_def)
  have "cells (turn conf act (h ! p)) = cells (h ! p)"
    using turn_cells [OF assms(1,3,6) k assms(7)] .
  then show ?thesis
    using step_turn [OF assms] assms(5) by (simp add: cells_def)
qed

theorem move_preserves_colours_witness:
  "valid_config example_config \<and>
   legal example_config \<lparr>side = CHR ''U'', direction = CHR ''d''\<rparr> \<and>
   has_shape (length (conf_colors example_config)) 3 ([solved_state 6 3] ! 0) \<and>
   (\<exists>r self' h'.
      step example_config \<lparr>action = Some \<lparr>side = CHR ''U'', direction = CHR ''d''\<rparr>\<rparr>
        \<lparr>dim = 3, verbose = False, counter = 0, cube = Some 0\<rparr> [solved_state 6 3] = Inr (r, self', h') \<and>
      mset (concat (concat (h' ! 0))) = mset (concat (concat ([solved_state 6 3] ! 0))))"
proof -
  note sh = has_shape_example
  show ?thesis
    using move_preserves_colours [OF valid_example _ legal_example_Ud _ _ sh,
        of "\<lparr>action = Some \<lparr>side = CHR ''U'', direction = CHR ''d''\<rparr>\<rparr>"
           "\<lparr>dim = 3, verbose = False, counter = 0, cube = Some 0\<rparr>"]
      valid_example legal_example_Ud sh
    by simp
qed

text \<open>
  C5: the same legal move applied four times in a row to a cube array of shape
  \<open>(colours, d, d)\<close>, \<open>0 < d\<close>, succeeds each time and leaves the store, and so the whole
  state of the engine (the turned face and the strips of its neighbours), as it was. The
  configuration is valid and its table reverses a strip an even number of times round
  the cycle.
\<close>

theorem four_moves_restore_state:
  assumes "valid_config conf" and "even_inversions conf"
    and "action m = Some act" and "legal conf act"
    and "cube self = Some p" and "p < length h"
    and "has_shape (length (conf_colors conf)) d (h ! p)" and "0 < d"
  shows "\<exists>r1 self1 h1 r2 self2 h2 r3 self3 h3 r4 self4.
           step conf m self h = Inr (r1, self1, h1) \<and>
           step conf m self1 h1 = Inr (r2, self2, h2) \<and>
           step conf m self2 h2 = Inr (r3, self3, h3) \<and>
           step conf m self3 h3 = Inr (r4, self4, h)"
proof -
  have k: "length (conf_sides conf) \<le> length (conf_colors conf)"
    using assms(1) by (simp add: valid_config_def)
  let ?K = "length (conf_colors conf)"
  let ?t = "turn conf act"
  note ts = turn_shape [OF assms(1,4) _ k assms(8)]
  have sh1: "has_shape ?K d (?t (h ! p))"
    using ts [OF assms(7)] .
  have sh2: "has_shape ?K d (?t (?t (h ! p)))"
    using ts [OF sh1] .
  have sh3: "has_shape ?K d (?t (?t (?t (h ! p))))"
    using ts [OF sh2] .
  note st = step_turn [OF assms(1,3,4)]
  have s1: "step conf m self h =
      Inr ((p, (if solved (?t (h ! p)) then 1 else - 1), solved (?t (h ! p))),
           self\<lparr>counter := counter self + 1\<rparr>, h[p := ?t (h ! p)])"
    using st [OF assms(5,6,7,8)] .
  have s2: "step conf m (self\<lparr>counter := counter self + 1\<rparr>) (h[p := ?t (h ! p)]) =
      Inr ((p, (if solved (?t (?t (h ! p))) then 1 else - 1), solved (?t (?t (h ! p)))),
           self\<lparr>counter := counter self + 2\<rparr>, h[p := ?t (?t (h ! p))])"
    using st [of "self\<lparr>counter := counter self + 1\<rparr>" p "h[p := ?t (h ! p)]" d]
      assms(5,6,8) sh1 by simp
  have s3: "step conf m (self\<lparr>counter := counter self + 2\<rparr>) (h[p := ?t (?t (h ! p))]) =
      Inr ((p, (if solved (?t (?t (?t (h ! p)))) then 1 else - 1), solved (?t (?t (?t (h ! p))))),
           self\<lparr>counter := counter self + 3\<rparr>, h[p := ?t (?t (?t (h ! p)))])"
    using st [of "self\<lparr>counter := counter self + 2\<rparr>" p "h[p := ?t (?t (h ! p))]" d]
      assms(5,6,8) sh2 by simp
  have four: "?t (?t (?t (?t (h ! p)))) = h ! p"
    using turn_four [OF assms(1,2,4,7) k assms(8)] .
  have s4: "step conf m (self\<lparr>counter := counter self + 3\<rparr>) (h[p := ?t (?t (?t (h ! p)))]) =
      Inr ((p, (if solved (h ! p) then 1 else - 1), solved (h ! p)),
           self\<lparr>counter := counter self + 4\<rparr>, h)"
    using st [of "self\<lparr>counter := counter self + 3\<rparr>" p "h[p := ?t (?t (?t (h ! p)))]" d]
      assms(5,6,8) sh3 four by simp
  show ?thesis
    using s1 s2 s3 s4 by simp
qed

theorem four_moves_restore_state_witness:
  "valid_config example_config \<and> even_inversions example_config \<and>
   legal example_config \<lparr>side = CHR ''L'', direction = CHR ''i''\<rparr> \<and>
   has_shape (length (conf_colors example_config)) 3 ([solved_state 6 3] ! 0) \<and>
   (\<exists>r1 self1 h1 r2 self2 h2 r3 self3 h3 r4 self4.
      step example_config \<lparr>action = Some \<lparr>side = CHR ''L'', direction = CHR ''i''\<rparr>\<rparr>
        \<lparr>dim = 3, verbose = False, counter = 0, cube = Some 0\<rparr> [solved_state 6 3] = Inr (r1, self1, h1) \<and>
      step example_config \<lparr>action = Some \<lparr>side = CHR ''L'', direction = CHR ''i''\<rparr>\<rparr> self1 h1 =
        Inr (r2, self2, h2) \<and>
      step example_config \<lparr>action = Some \<lparr>side = CHR ''L'', direction = CHR ''i''\<rparr>\<rparr> self2 h2 =
        Inr (r3, self3, h3) \<and>
      step example_config \<lparr>action = Some \<lparr>side = CHR ''L'', direction = CHR ''i''\<rparr>\<rparr> self3 h3 =
        Inr (r4, self4, [solved_state 6 3]))"
proof -
  note sh = has_shape_example
  show ?thesis
    using four_moves_restore_state [OF valid_example even_example _ legal_example_Li _ _ sh,
        of "\<lparr>action = Some \<lparr>side = CHR ''L'', direction = CHR ''i''\<rparr>\<rparr>"
           "\<lparr>dim = 3, verbose = False, counter = 0, cube = Some 0\<rparr>"]
      valid_example even_example legal_example_Li sh
    by simp
qed

text \<open>
  C4: a freshly constructed cube is solved (every cell of face \<open>i\<close> holds \<open>i\<close>) and its
  reward is 1; for \<open>2 \<le> d\<close>, one legal move on it gives a state that is not solved,
  with reward -1 and the flag \<open>done\<close> false; a reward is never anything but 1 or -1, and
  on an array with one face per colour it is 1 exactly when the array is solved.
\<close>

theorem fresh_cube_solved_one_move_not:
  assumes "valid_config conf"
  shows "\<exists>self h'.
           RubiksCube_init conf junk d NoCube vb False g h = Inr (self, g, h') \<and>
           cube self = Some (length h) \<and>
           solved (h' ! length h) \<and>
           get_reward conf self h' = Inr 1 \<and>
           is_resolved conf self h' = Inr True \<and>
           (\<forall>m act. 2 \<le> d \<and> action m = Some act \<and> legal conf act \<longrightarrow>
              (\<exists>self1 h1. step conf m self h' = Inr ((length h, - 1, False), self1, h1) \<and>
                 \<not> solved (h1 ! length h))) \<and>
           (\<forall>e h0 r. get_reward conf e h0 = Inr r \<longrightarrow> r = 1 \<or> r = - 1) \<and>
           (\<forall>e h0 p. cube e = Some p \<and> length (h0 ! p) = length (conf_colors conf) \<longrightarrow>
              get_reward conf e h0 = Inr (if solved (h0 ! p) then 1 else - 1))"
proof -
  let ?k = "length (conf_colors conf)"
  let ?self = "\<lparr>dim = d, verbose = vb, counter = 0, cube = Some (length h)\<rparr>"
  let ?h' = "h @ [solved_state ?k d]"
  have dc: "distinct (conf_colors conf)"
    using assms by (simp add: valid_config_def)
  have init: "RubiksCube_init conf junk d NoCube vb False g h = Inr (?self, g, ?h')"
    using init_no_cube [OF dc] .
  have at: "?h' ! length h = solved_state ?k d"
    by simp
  have rew: "get_reward conf ?self ?h' = Inr 1"
    using get_reward_solved [OF dc, of ?self "length h" ?h'] by simp
  have res: "is_resolved conf ?self ?h' = Inr True"
    using rew by (simp add: is_resolved_def and_then_def)
  have move: "\<exists>self1 h1. step conf m ?self ?h' = Inr ((length h, - 1, False), self1, h1) \<and>
                 \<not> solved (h1 ! length h)"
    if "2 \<le> d" "action m = Some act" "legal conf act" for m act
  proof -
    have d: "0 < d"
      using that(1) by simp
    have sh: "has_shape ?k d (?h' ! length h)"
      by simp
    have un: "\<not> solved (turn conf act (?h' ! length h))"
      using one_move_unsolves [OF assms that(3) d] by simp
    show ?thesis
      using step_turn [OF assms that(2,3) _ _ sh d, of ?self] un by simp
  qed
  have vals: "\<forall>e h0 r. get_reward conf e h0 = Inr r \<longrightarrow> r = 1 \<or> r = - 1"
    using get_reward_values by blast
  have iff: "\<forall>e h0 p. cube e = Some p \<and> length (h0 ! p) = ?k \<longrightarrow>
              get_reward conf e h0 = Inr (if solved (h0 ! p) then 1 else - 1)"
    using get_reward_solved [OF dc] by blast
  show ?thesis
    using init rew res move vals iff by (intro exI [of _ ?self] exI [of _ ?h']) simp
qed

theorem fresh_cube_solved_one_move_not_witness:
  "valid_config example_config \<and> (2::nat) \<le> 3 \<and>
   legal example_config \<lparr>side = CHR ''U'', direction = CHR ''d''\<rparr> \<and>
   (\<exists>self h'.
      RubiksCube_init example_config zero_memory 3 NoCube False False no_random [] = Inr (self, no_random, h') \<and>
      solved (h' ! 0) \<and> get_reward example_config self h' = Inr 1 \<and>
      (\<exists>self1 h1. step example_config \<lparr>action = Some \<lparr>side = CHR ''U'', direction = CHR ''d''\<rparr>\<rparr> self h' =
         Inr ((0, - 1, False), self1, h1) \<and> \<not> solved (h1 ! 0)))"
proof -
  obtain self h' where
    i: "RubiksCube_init example_config zero_memory 3 NoCube False False no_random [] = Inr (self, no_random, h')"
      "solved (h' ! length ([] :: heap))" "get_reward example_config self h' = Inr 1"
    and mv: "\<forall>m act. (2::nat) \<le> 3 \<and> action m = Some act \<and> legal example_config act \<longrightarrow>
              (\<exists>self1 h1. step example_config m self h' = Inr ((length ([] :: heap), - 1, False), self1, h1) \<and>
                 \<not> solved (h1 ! length ([] :: heap)))"
    using fresh_cube_solved_one_move_not [OF valid_example, of zero_memory 3 False no_random "[]"]
    by blast
  have "\<exists>self1 h1. step example_config \<lparr>action = Some \<lparr>side = CHR ''U'', direction = CHR ''d''\<rparr>\<rparr> self h' =
         Inr ((0, - 1, False), self1, h1) \<and> \<not> solved (h1 ! 0)"
    using mv [rule_format, of "\<lparr>action = Some \<lparr>side = CHR ''U'', direction = CHR ''d''\<rparr>\<rparr>"
        "\<lparr>side = CHR ''U'', direction = CHR ''d''\<rparr>"] legal_example_Ud by simp
  then show ?thesis
    using i valid_example legal_example_Ud by auto
qed

end
